theory Spec2Isabelle
  imports Complex_Main
begin

section \<open>Text\<close>

text \<open>
  The program is \<^verbatim>\<open>src/patient_data_research.py\<close>. Its strings are Python \<^verbatim>\<open>str\<close> values.
  A \<^typ>\<open>char\<close> stands for a Unicode code point below 256, and the three tables below
  are Python's own on that range: \<^verbatim>\<open>str.lower\<close>, the regular-expression class
  \<^verbatim>\<open>\w\<close> and the class \<^verbatim>\<open>\s\<close>, which is also what \<^verbatim>\<open>str.strip\<close> removes. The class
  \<^verbatim>\<open>\w\<close> holds the underscore and every character for which \<^verbatim>\<open>str.isalnum\<close> is true:
  the letters, the decimal digits, and the other numeric characters, which below 256
  are the superscripts U+00B2, U+00B3, U+00B9 and the fractions U+00BC to U+00BE.
  Text with code points from 256 on is outside the model.
\<close>

definition code :: "char \<Rightarrow> nat" where
  "code c = of_char c"

definition lower_char :: "char \<Rightarrow> char" where
  "lower_char c =
     (if (65 \<le> code c \<and> code c \<le> 90) \<or> (192 \<le> code c \<and> code c \<le> 222 \<and> code c \<noteq> 215)
      then char_of (code c + 32) else c)"

definition lower :: "string \<Rightarrow> string" where
  "lower s = map lower_char s"

definition is_space :: "char \<Rightarrow> bool" where
  "is_space c \<longleftrightarrow>
     (9 \<le> code c \<and> code c \<le> 13) \<or> (28 \<le> code c \<and> code c \<le> 32) \<or> code c = 133 \<or> code c = 160"

definition is_word :: "char \<Rightarrow> bool" where
  "is_word c \<longleftrightarrow>
     (48 \<le> code c \<and> code c \<le> 57) \<or> (65 \<le> code c \<and> code c \<le> 90) \<or> code c = 95 \<or>
     (97 \<le> code c \<and> code c \<le> 122) \<or> code c = 170 \<or> (178 \<le> code c \<and> code c \<le> 179) \<or>
     code c = 181 \<or> (185 \<le> code c \<and> code c \<le> 186) \<or> (188 \<le> code c \<and> code c \<le> 190) \<or>
     (192 \<le> code c \<and> code c \<le> 214) \<or> (216 \<le> code c \<and> code c \<le> 246) \<or> 248 \<le> code c"

text \<open>
  \<^verbatim>\<open>str.upper\<close> can lengthen a string: U+00DF becomes \<^verbatim>\<open>SS\<close>. The upper cases of U+00B5
  and U+00FF are U+039C and U+0178, which no \<^typ>\<open>char\<close> holds; the two code points
  stand for their own upper case, which no other code point below 256 maps to.
\<close>

definition upper_char :: "char \<Rightarrow> string" where
  "upper_char c =
     (if code c = 223 then ''SS''
      else if (97 \<le> code c \<and> code c \<le> 122) \<or> (224 \<le> code c \<and> code c \<le> 254 \<and> code c \<noteq> 247)
      then [char_of (code c - 32)] else [c])"

definition upper :: "string \<Rightarrow> string" where
  "upper s = concat (map upper_char s)"

text \<open>\<^verbatim>\<open>s.strip()\<close>: leading and trailing white space removed.\<close>

definition lstrip :: "string \<Rightarrow> string" where
  "lstrip s = dropWhile is_space s"

definition rstrip :: "string \<Rightarrow> string" where
  "rstrip s = rev (dropWhile is_space (rev s))"

definition strip :: "string \<Rightarrow> string" where
  "strip s = rstrip (lstrip s)"

section \<open>Helpers\<close>

text \<open>
  \<^verbatim>\<open>re.sub(r"[^\w\s]", " ", s)\<close>: every character that is neither a word character
  nor white space becomes one space.
\<close>

definition sub_punct :: "string \<Rightarrow> string" where
  "sub_punct s = map (\<lambda>c. if is_word c \<or> is_space c then c else CHR '' '') s"

text \<open>\<^verbatim>\<open>re.sub(r"\s+", " ", s)\<close>: every maximal run of white space becomes one space.\<close>

function sub_spaces :: "string \<Rightarrow> string" where
  "sub_spaces [] = []"
| "sub_spaces (c # cs) =
     (if is_space c then CHR '' '' # sub_spaces (dropWhile is_space cs)
      else c # sub_spaces cs)"
  by pat_completeness auto
termination
  by (relation "measure length") (auto simp: less_Suc_eq_le length_dropWhile_le)

text \<open>\<^verbatim>\<open>normalize_name\<close>; \<open>None\<close> is a missing value, for which \<^verbatim>\<open>pd.isna\<close> holds.\<close>

definition normalize_name :: "string option \<Rightarrow> string" where
  "normalize_name name =
     (case name of
        None \<Rightarrow> ''''
      | Some n \<Rightarrow> strip (sub_spaces (sub_punct (lower n))))"

definition normalize_gender :: "string option \<Rightarrow> string" where
  "normalize_gender g =
     (case g of
        None \<Rightarrow> ''''
      | Some t \<Rightarrow>
          (let s = lower (strip t) in
           if s \<in> set [''m'', ''male'', ''man''] then ''male''
           else if s \<in> set [''f'', ''female'', ''woman''] then ''female''
           else if s \<in> set [''o'', ''other'', ''non-binary'', ''nb''] then ''other''
           else s))"

text \<open>The dictionary \<^verbatim>\<open>codes\<close> of \<^verbatim>\<open>soundex\<close>, in the order it is written and scanned.\<close>

definition codes :: "(string \<times> char) list" where
  "codes = [(''BFPV'', CHR ''1''), (''CGJKQSXZ'', CHR ''2''), (''DT'', CHR ''3''),
            (''L'', CHR ''4''), (''MN'', CHR ''5''), (''R'', CHR ''6'')]"

text \<open>
  The inner \<^verbatim>\<open>for ... else\<close> of \<^verbatim>\<open>soundex\<close> for one character: the first group holding
  the character gives its digit, appended unless it equals the last character of the
  code so far; a character of no group appends \<^verbatim>\<open>0\<close>.
\<close>

fun soundex_step :: "(string \<times> char) list \<Rightarrow> string \<Rightarrow> char \<Rightarrow> string" where
  "soundex_step [] sndx c = sndx @ ''0''"
| "soundex_step ((key, val) # kvs) sndx c =
     (if c \<in> set key then (if val \<noteq> last sndx then sndx @ [val] else sndx)
      else soundex_step kvs sndx c)"

definition soundex :: "string \<Rightarrow> string" where
  "soundex name =
     (if name = [] then ''''
      else (case upper name of
              [] \<Rightarrow> ''''
            | c # cs \<Rightarrow>
                (let sndx = foldl (soundex_step codes) [c] cs;
                     sndx = filter (\<lambda>x. x \<noteq> CHR ''0'') sndx
                 in take 4 (sndx @ ''000''))))"

section \<open>Errors and results\<close>

text \<open>
  The exceptions the modelled code can raise. A computation that may raise or may not
  return has a result of type \<open>(error + 'a) option\<close>: \<open>None\<close> is a loop that never ends,
  \<open>Some (Inl e)\<close> the exception \<open>e\<close>, \<open>Some (Inr x)\<close> the value \<open>x\<close>.
\<close>

datatype error = IndexError | KeyError | ValueError

fun and_then :: "(error + 'a) option \<Rightarrow> ('a \<Rightarrow> (error + 'b) option) \<Rightarrow> (error + 'b) option" where
  "and_then None f = None"
| "and_then (Some (Inl e)) f = Some (Inl e)"
| "and_then (Some (Inr x)) f = f x"

text \<open>A \<^verbatim>\<open>for\<close> loop over a list, the body updating a state.\<close>

fun for_each :: "'a list \<Rightarrow> ('a \<Rightarrow> 's \<Rightarrow> (error + 's) option) \<Rightarrow> 's \<Rightarrow> (error + 's) option" where
  "for_each [] body s = Some (Inr s)"
| "for_each (x # xs) body s = and_then (body x s) (for_each xs body)"

section \<open>The class DSU\<close>

text \<open>
  The two lists of a \<^verbatim>\<open>DSU\<close> object; the field \<^verbatim>\<open>size\<close> is \<open>size_d\<close> here. Indices are
  natural numbers: the program passes positions of records only.
\<close>

record DSU =
  parent :: "nat list"
  size_d :: "nat list"

definition DSU_init :: "nat \<Rightarrow> DSU" where
  "DSU_init n = \<lparr>parent = [0..<n], size_d = replicate n 1\<rparr>"

text \<open>
  \<^verbatim>\<open>DSU.find\<close>, a \<^verbatim>\<open>while\<close> loop with path halving. It returns the object as the loop
  left it, and the root. Reading a list past its end raises \<^verbatim>\<open>IndexError\<close>.
\<close>

partial_function (option) DSU_find :: "DSU \<Rightarrow> nat \<Rightarrow> (error + DSU \<times> nat) option" where
  "DSU_find s a =
     (if length (parent s) \<le> a then Some (Inl IndexError)
      else if parent s ! a = a then Some (Inr (s, a))
      else if length (parent s) \<le> parent s ! a then Some (Inl IndexError)
      else DSU_find (s\<lparr>parent := (parent s)[a := parent s ! (parent s ! a)]\<rparr>)
             (parent s ! (parent s ! a)))"

declare DSU_find.simps [code]

text \<open>\<^verbatim>\<open>DSU.union\<close>: union by size of the two roots.\<close>

definition DSU_union :: "DSU \<Rightarrow> nat \<Rightarrow> nat \<Rightarrow> (error + DSU) option" where
  "DSU_union s a b =
     and_then (DSU_find s a) (\<lambda>(s, pa).
     and_then (DSU_find s b) (\<lambda>(s, pb).
       if pa = pb then Some (Inr s)
       else if length (size_d s) \<le> pa \<or> length (size_d s) \<le> pb then Some (Inl IndexError)
       else (let (pa, pb) = (if size_d s ! pa < size_d s ! pb then (pb, pa) else (pa, pb))
             in Some (Inr (s\<lparr>parent := (parent s)[pb := pa],
                             size_d := (size_d s)[pa := size_d s ! pa + size_d s ! pb]\<rparr>)))))"

section \<open>detect\_duplicates\<close>

text \<open>
  A row of the data frame, with the four columns \<^verbatim>\<open>detect_duplicates\<close> reads. A parsed
  date of birth is a pandas \<^verbatim>\<open>Timestamp\<close>, of which the program reads the text
  \<^verbatim>\<open>isoformat()\<close> only, or it is \<^verbatim>\<open>NaT\<close>, here \<open>None\<close>.
\<close>

datatype timestamp = Timestamp string

fun isoformat :: "timestamp \<Rightarrow> string" where
  "isoformat (Timestamp t) = t"

record row =
  Name_norm :: string
  DOB_parsed :: "timestamp option"
  Gender_norm :: string
  Soundex :: string

text \<open>
  The first component of a key of \<^verbatim>\<open>blocks\<close>. \<^verbatim>\<open>pd.NaT\<close> is one object with one hash
  value, and a dictionary compares the components of tuple keys by identity first, so
  two keys with \<^verbatim>\<open>pd.NaT\<close> in first place agree there.
\<close>

datatype dob_key = NaT | Iso string

type_synonym block_key = "dob_key \<times> string \<times> string"

definition key_of :: "row \<Rightarrow> block_key" where
  "key_of r =
     ((case DOB_parsed r of None \<Rightarrow> NaT | Some d \<Rightarrow> Iso (isoformat d)),
      Gender_norm r, take 2 (Soundex r))"

text \<open>
  \<^verbatim>\<open>blocks[key].append(idx)\<close> on a \<^verbatim>\<open>defaultdict(list)\<close>: the dictionary keeps its keys
  in the order of their first insertion, which is the order \<^verbatim>\<open>blocks.items()\<close> has.
\<close>

fun blocks_append :: "'k \<Rightarrow> nat \<Rightarrow> ('k \<times> nat list) list \<Rightarrow> ('k \<times> nat list) list" where
  "blocks_append k idx [] = [(k, [idx])]"
| "blocks_append k idx ((k', idxs) # bs) =
     (if k' = k then (k', idxs @ [idx]) # bs else (k', idxs) # blocks_append k idx bs)"

definition build_blocks :: "row list \<Rightarrow> (block_key \<times> nat list) list" where
  "build_blocks df =
     foldl (\<lambda>blocks (idx, r). blocks_append (key_of r) idx blocks) [] (enumerate 0 df)"

text \<open>
  The scorer \<^verbatim>\<open>fuzz.partial_ratio\<close> belongs to a library; it is a parameter, and entry
  \<open>(i, j)\<close> of the matrix of \<^verbatim>\<open>process.cdist\<close> is the score of names \<open>i\<close> and \<open>j\<close> of the block.
\<close>

type_synonym scorer = "string \<Rightarrow> string \<Rightarrow> real"

definition NAME_SIMILARITY_THRESHOLD :: real where
  "NAME_SIMILARITY_THRESHOLD = 65"

definition union_block :: "scorer \<Rightarrow> row list \<Rightarrow> nat list \<Rightarrow> DSU \<Rightarrow> (error + DSU) option" where
  "union_block score df indices dsu =
     (if length indices < 2 then Some (Inr dsu)
      else if \<exists>i \<in> set indices. length df \<le> i then Some (Inl KeyError)
      else (let block_names = map (\<lambda>i. Name_norm (df ! i)) indices
            in for_each [0..<length block_names] (\<lambda>i.
                 for_each [i + 1..<length block_names] (\<lambda>j dsu.
                   if NAME_SIMILARITY_THRESHOLD \<le> score (block_names ! i) (block_names ! j)
                   then DSU_union dsu (indices ! i) (indices ! j)
                   else Some (Inr dsu))) dsu))"

text \<open>Lines 78 to 86: the forest after the unions of all blocks.\<close>

definition cluster_records :: "scorer \<Rightarrow> row list \<Rightarrow> (error + DSU) option" where
  "cluster_records score df =
     for_each (build_blocks df) (\<lambda>(_, indices). union_block score df indices)
       (DSU_init (length df))"

text \<open>
  The first loop of line 89. Python evaluates the right-hand side first, so the root
  looked up is the one of the first call and the key written the one of the second.
\<close>

definition count_step :: "nat \<Rightarrow> DSU \<times> (nat \<rightharpoonup> nat) \<Rightarrow> (error + DSU \<times> (nat \<rightharpoonup> nat)) option" where
  "count_step i = (\<lambda>(dsu, counts).
     and_then (DSU_find dsu i) (\<lambda>(dsu, r1).
     and_then (DSU_find dsu i) (\<lambda>(dsu, r2).
       Some (Inr (dsu, counts(r2 \<mapsto> (case counts r1 of None \<Rightarrow> 0 | Some c \<Rightarrow> c) + 1))))))"

text \<open>The body of the loop of lines 90 to 96.\<close>

record numbering =
  cluster_map :: "nat \<rightharpoonup> int"
  cluster_ids :: "int list"
  cluster_counter :: int

definition assign_step ::
  "(nat \<rightharpoonup> nat) \<Rightarrow> nat \<Rightarrow> DSU \<times> numbering \<Rightarrow> (error + DSU \<times> numbering) option" where
  "assign_step counts i = (\<lambda>(dsu, st).
     and_then (DSU_find dsu i) (\<lambda>(dsu, root).
       case counts root of
         None \<Rightarrow> Some (Inl KeyError)
       | Some c \<Rightarrow>
           if 1 < c then
             (let st = (if cluster_map st root = None
                        then st\<lparr>cluster_map := (cluster_map st)(root \<mapsto> cluster_counter st),
                                cluster_counter := cluster_counter st + 1\<rparr>
                        else st)
              in case cluster_map st root of
                   None \<Rightarrow> Some (Inl KeyError)
                 | Some cid \<Rightarrow>
                     if length (cluster_ids st) \<le> i then Some (Inl IndexError)
                     else Some (Inr (dsu, st\<lparr>cluster_ids := (cluster_ids st)[i := cid]\<rparr>)))
           else Some (Inr (dsu, st))))"

text \<open>Lines 88 to 96 on a forest over \<open>n\<close> records.\<close>

definition assign_clusters :: "nat \<Rightarrow> DSU \<Rightarrow> (error + int list) option" where
  "assign_clusters n dsu =
     and_then (for_each [0..<n] count_step (dsu, Map.empty)) (\<lambda>(dsu, counts).
     and_then (for_each [0..<n] (assign_step counts)
                 (dsu, \<lparr>cluster_map = Map.empty, cluster_ids = replicate n (- 1),
                        cluster_counter = 0\<rparr>)) (\<lambda>(dsu, st).
       Some (Inr (cluster_ids st))))"

text \<open>
  The result is a series of nullable integers (\<^verbatim>\<open>dtype="Int64"\<close>) made from a list of
  integers: no entry of it is null. \<^verbatim>\<open>pd.Series\<close> raises \<^verbatim>\<open>ValueError\<close> when the list has
  not the length of the index.
\<close>

definition detect_duplicates :: "scorer \<Rightarrow> row list \<Rightarrow> (error + int option list) option" where
  "detect_duplicates score df =
     and_then (cluster_records score df) (\<lambda>dsu.
     and_then (assign_clusters (length df) dsu) (\<lambda>cluster_ids.
       if length cluster_ids \<noteq> length df then Some (Inl ValueError)
       else Some (Inr (map Some cluster_ids))))"

section \<open>process\_file\<close>

text \<open>
  A record as the workbook gives it. A missing cell is \<open>None\<close>. The cell \<^verbatim>\<open>DOB\<close> is
  held as \<^verbatim>\<open>pd.to_datetime(..., errors="coerce").dt.normalize()\<close> reads it, the work of
  a library: \<open>None\<close> is \<^verbatim>\<open>NaT\<close>, the value of a missing or unparseable date.
\<close>

record patient =
  Name :: "string option"
  DOB :: "timestamp option"
  Gender :: "string option"
  Nationality :: "string option"
  Disease :: "string option"
  Symptoms :: "string option"

text \<open>\<^verbatim>\<open>fillna("").astype(str)\<close> on a cell.\<close>

definition fillna_str :: "string option \<Rightarrow> string" where
  "fillna_str c = (case c of None \<Rightarrow> '''' | Some s \<Rightarrow> s)"

text \<open>\<^verbatim>\<open>n.split(" ")[0] if n else ""\<close>.\<close>

definition first_token :: "string \<Rightarrow> string" where
  "first_token n = (if n = [] then '''' else takeWhile (\<lambda>c. c \<noteq> CHR '' '') n)"

definition normalize_row :: "patient \<Rightarrow> row" where
  "normalize_row p =
     (let name_norm = normalize_name (Some (fillna_str (Name p)))
      in \<lparr>Name_norm = name_norm,
          DOB_parsed = DOB p,
          Gender_norm = normalize_gender (Some (fillna_str (Gender p))),
          Soundex = soundex (first_token name_norm)\<rparr>)"

record annotated =
  Unique_ID :: int
  Cluster_ID :: "int option"
  Is_Duplicate :: bool
  Patient :: patient
  source_sheet :: string
  source_row :: int

record summary =
  Total_Records :: nat
  Duplicate_Records :: nat
  Duplicate_Clusters :: nat

text \<open>
  \<^verbatim>\<open>df["Cluster_ID"].notna() & (df["Cluster_ID"] >= 0)\<close> on one entry, and
  \<^verbatim>\<open>.dropna()\<close> and \<^verbatim>\<open>.nunique()\<close> on a column.
\<close>

definition is_duplicate :: "int option \<Rightarrow> bool" where
  "is_duplicate c = (case c of None \<Rightarrow> False | Some v \<Rightarrow> 0 \<le> v)"

definition dropna :: "'a option list \<Rightarrow> 'a list" where
  "dropna xs = concat (map (\<lambda>x. case x of None \<Rightarrow> [] | Some v \<Rightarrow> [v]) xs)"

definition nunique :: "'a list \<Rightarrow> nat" where
  "nunique xs = length (remdups xs)"

text \<open>
  \<^verbatim>\<open>process_file\<close> from the sheets read (name and rows of each) to the frame
  \<^verbatim>\<open>df_out\<close>, the sheet \<^verbatim>\<open>Summary\<close> and the frame of the duplicates. \<^verbatim>\<open>pd.concat\<close> raises
  \<^verbatim>\<open>ValueError\<close> on no sheet at all. Writing the workbooks is left out. The frame
  \<^verbatim>\<open>df\<close> with its new columns and its copy \<^verbatim>\<open>df_out\<close> of some of the columns are one
  list here, of the columns that \<^verbatim>\<open>df_out\<close> keeps.
\<close>

definition concat_sheets :: "(string \<times> patient list) list \<Rightarrow> (patient \<times> string \<times> int) list" where
  "concat_sheets sheets =
     concat (map (\<lambda>(sheet, rows).
       map (\<lambda>(idx, p). (p, sheet, int idx + 1)) (enumerate 0 rows)) sheets)"

text \<open>
  Lines 115 to 119: the columns \<^verbatim>\<open>Unique_ID\<close>, \<^verbatim>\<open>Cluster_ID\<close> and \<^verbatim>\<open>Is_Duplicate\<close> added
  to the rows. Lines 131 to 135: the sheet \<^verbatim>\<open>Summary\<close>.
\<close>

definition annotate :: "(patient \<times> string \<times> int) list \<Rightarrow> int option list \<Rightarrow> annotated list" where
  "annotate frames cluster_id =
     map (\<lambda>(i, (p, sheet, r)).
            \<lparr>Unique_ID = int i + 1,
             Cluster_ID = cluster_id ! i,
             Is_Duplicate = is_duplicate (cluster_id ! i),
             Patient = p, source_sheet = sheet, source_row = r\<rparr>)
         (enumerate 0 frames)"

definition summarize :: "annotated list \<Rightarrow> summary" where
  "summarize df_out =
     \<lparr>Total_Records = length df_out,
      Duplicate_Records = length (filter Is_Duplicate df_out),
      Duplicate_Clusters = nunique (dropna (map Cluster_ID df_out))\<rparr>"

definition process_file ::
  "scorer \<Rightarrow> (string \<times> patient list) list \<Rightarrow> (error + annotated list \<times> summary \<times> annotated list) option" where
  "process_file score sheets =
     (if sheets = [] then Some (Inl ValueError)
      else (let frames = concat_sheets sheets;
                df = map (\<lambda>(p, _, _). normalize_row p) frames
            in and_then (detect_duplicates score df) (\<lambda>cluster_id.
                 (let df_out = annotate frames cluster_id
                  in Some (Inr (df_out, summarize df_out, filter Is_Duplicate df_out))))))"

section \<open>Notions used in the statements\<close>

text \<open>
  Every white-space character of a text is a space, and no white space follows it.
\<close>

fun single_spaced :: "string \<Rightarrow> bool" where
  "single_spaced [] \<longleftrightarrow> True"
| "single_spaced [c] \<longleftrightarrow> \<not> is_space c \<or> c = CHR '' ''"
| "single_spaced (c # d # cs) \<longleftrightarrow>
     (\<not> is_space c \<or> (c = CHR '' '' \<and> \<not> is_space d)) \<and> single_spaced (d # cs)"

text \<open>
  The maximal runs of word characters of a text, in order, and texts joined by single
  spaces.
\<close>

function word_runs :: "string \<Rightarrow> string list" where
  "word_runs [] = []"
| "word_runs (c # cs) =
     (if is_word c then (c # takeWhile is_word cs) # word_runs (dropWhile is_word cs)
      else word_runs cs)"
  by pat_completeness auto
termination
  by (relation "measure length") (auto simp: less_Suc_eq_le length_dropWhile_le)

fun join_spaces :: "string list \<Rightarrow> string" where
  "join_spaces [] = []"
| "join_spaces [w] = w"
| "join_spaces (w # v # ws) = w @ CHR '' '' # join_spaces (v # ws)"

text \<open>
  The parent pointers form a forest when some rank decreases along every pointer that
  leaves its index, and stays inside the list. The root of an index is the index the
  pointers lead to.
\<close>

definition ranked :: "(nat \<Rightarrow> nat) \<Rightarrow> nat list \<Rightarrow> bool" where
  "ranked h p \<longleftrightarrow> (\<forall>i < length p. p ! i < length p \<and> (p ! i \<noteq> i \<longrightarrow> h (p ! i) < h i))"

definition forest :: "nat list \<Rightarrow> bool" where
  "forest p \<longleftrightarrow> (\<exists>h. ranked h p)"

inductive root_of :: "nat list \<Rightarrow> nat \<Rightarrow> nat \<Rightarrow> bool" for p :: "nat list" where
  here: "i < length p \<Longrightarrow> p ! i = i \<Longrightarrow> root_of p i i"
| up: "i < length p \<Longrightarrow> p ! i \<noteq> i \<Longrightarrow> root_of p (p ! i) r \<Longrightarrow> root_of p i r"

text \<open>The root \<^verbatim>\<open>find\<close> returns, when it returns one.\<close>

definition find_root :: "DSU \<Rightarrow> nat \<Rightarrow> nat option" where
  "find_root s i = (case DSU_find s i of Some (Inr (_, r)) \<Rightarrow> Some r | _ \<Rightarrow> None)"

text \<open>A forest over \<open>n\<close> indices.\<close>

definition forest_over :: "nat \<Rightarrow> DSU \<Rightarrow> bool" where
  "forest_over n s \<longleftrightarrow> length (parent s) = n \<and> forest (parent s)"

text \<open>
  A forest over \<open>n\<close> indices whose roots record the sizes of their sets.
\<close>

definition dsu_inv :: "nat \<Rightarrow> DSU \<Rightarrow> bool" where
  "dsu_inv n s \<longleftrightarrow>
     length (parent s) = n \<and> length (size_d s) = n \<and> forest (parent s) \<and>
     (\<forall>r < n. parent s ! r = r \<longrightarrow> size_d s ! r = card {i. root_of (parent s) i r})"

text \<open>
  Two indices lie in one set of a forest when they have one root; a forest \<open>s'\<close> over
  \<open>n\<close> indices grows from \<open>s\<close> when it keeps in one set what \<open>s\<close> has in one set.
\<close>

definition same_set :: "DSU \<Rightarrow> nat \<Rightarrow> nat \<Rightarrow> bool" where
  "same_set s i j \<longleftrightarrow> (\<exists>r. root_of (parent s) i r \<and> root_of (parent s) j r)"

definition grows :: "nat \<Rightarrow> DSU \<Rightarrow> DSU \<Rightarrow> bool" where
  "grows n s s' \<longleftrightarrow> dsu_inv n s' \<and> (\<forall>i j. same_set s i j \<longrightarrow> same_set s' i j)"

text \<open>A sequence of calls of \<^verbatim>\<open>find\<close> and \<^verbatim>\<open>union\<close> on a new forest over \<open>n\<close> indices.\<close>

datatype call = Find nat | Union nat nat

fun run_call :: "call \<Rightarrow> DSU \<Rightarrow> (error + DSU) option" where
  "run_call (Find a) s = and_then (DSU_find s a) (\<lambda>(s, r). Some (Inr s))"
| "run_call (Union a b) s = DSU_union s a b"

fun in_range :: "nat \<Rightarrow> call \<Rightarrow> bool" where
  "in_range n (Find a) \<longleftrightarrow> a < n"
| "in_range n (Union a b) \<longleftrightarrow> a < n \<and> b < n"

definition run_calls :: "nat \<Rightarrow> call list \<Rightarrow> (error + DSU) option" where
  "run_calls n calls = for_each calls run_call (DSU_init n)"

text \<open>
  The size of the set of index \<open>i\<close> in a forest over \<open>n\<close> indices: the number of indices
  with the root of \<open>i\<close>.
\<close>

definition set_size :: "DSU \<Rightarrow> nat \<Rightarrow> nat \<Rightarrow> nat" where
  "set_size s n i = card {j. j < n \<and> find_root s i = find_root s j}"

text \<open>
  The state of the numbering loop before index \<open>m\<close>, on parent pointers \<open>p\<close>: what the
  entries written so far hold, which roots have a number, and that the numbers given
  are those below the counter, each first written after all smaller ones.
\<close>

definition num_inv :: "nat list \<Rightarrow> nat \<Rightarrow> numbering \<Rightarrow> bool" where
  "num_inv p m st \<longleftrightarrow>
     length (cluster_ids st) = length p \<and> 0 \<le> cluster_counter st \<and>
     (\<forall>j r. j < m \<longrightarrow> root_of p j r \<longrightarrow>
        (if 1 < card {i. root_of p i r} then cluster_map st r = Some (cluster_ids st ! j)
         else cluster_ids st ! j = - 1)) \<and>
     (\<forall>j. m \<le> j \<longrightarrow> j < length p \<longrightarrow> cluster_ids st ! j = - 1) \<and>
     (\<forall>r c. cluster_map st r = Some c \<longrightarrow>
        0 \<le> c \<and> c < cluster_counter st \<and> 1 < card {i. root_of p i r} \<and> (\<exists>j < m. root_of p j r)) \<and>
     (\<forall>r r' c. cluster_map st r = Some c \<longrightarrow> cluster_map st r' = Some c \<longrightarrow> r = r') \<and>
     (\<forall>c. 0 \<le> c \<longrightarrow> c < cluster_counter st \<longrightarrow> (\<exists>r. cluster_map st r = Some c)) \<and>
     (\<forall>j c. j < m \<longrightarrow> 0 \<le> c \<longrightarrow> c < cluster_ids st ! j \<longrightarrow> (\<exists>j' < j. cluster_ids st ! j' = c))"

text \<open>
  Identifiers for \<open>n\<close> records under the relation \<open>same\<close> of lying in one set: \<open>- 1\<close> for
  a record alone in its set and a number from \<open>0\<close> otherwise, one number for each set,
  and every number first given after all smaller ones.
\<close>

definition well_numbered :: "nat \<Rightarrow> (nat \<Rightarrow> nat \<Rightarrow> bool) \<Rightarrow> int list \<Rightarrow> bool" where
  "well_numbered n same ids \<longleftrightarrow>
     length ids = n \<and>
     (\<forall>i < n. if 1 < card {j. j < n \<and> same i j} then 0 \<le> ids ! i else ids ! i = - 1) \<and>
     (\<forall>i < n. \<forall>j < n. 0 \<le> ids ! i \<longrightarrow> (ids ! i = ids ! j \<longleftrightarrow> same i j)) \<and>
     (\<forall>i < n. \<forall>c. 0 \<le> c \<longrightarrow> c < ids ! i \<longrightarrow> (\<exists>j < i. ids ! j = c))"

text \<open>
  Two scorers for the examples, in place of the library's: one that finds no two names
  similar, and one that finds equal names similar and no others.
\<close>

definition no_match :: scorer where
  "no_match a b = 0"

definition exact_match :: scorer where
  "exact_match a b = (if a = b then 100 else 0)"

text \<open>A frame of two rows that agree in every column, for the examples.\<close>

definition two_rows :: "row list" where
  "two_rows =
     [\<lparr>Name_norm = ''ann lee'', DOB_parsed = None, Gender_norm = ''female'', Soundex = ''A500''\<rparr>,
      \<lparr>Name_norm = ''ann lee'', DOB_parsed = None, Gender_norm = ''female'', Soundex = ''A500''\<rparr>]"

text \<open>A workbook of one sheet with one record, for the examples.\<close>

definition one_sheet :: "(string \<times> patient list) list" where
  "one_sheet =
     [(''Sheet1'', [\<lparr>Name = Some ''Ann Lee'', DOB = None, Gender = Some ''F'',
                      Nationality = None, Disease = None, Symptoms = None\<rparr>])]"

text \<open>
  A workbook of one sheet with three records, for the examples: the first two have
  one normalized name and gender, the third another name.
\<close>

definition three_records :: "(string \<times> patient list) list" where
  "three_records =
     [(''Sheet1'',
       [\<lparr>Name = Some ''Ann Lee'', DOB = None, Gender = Some ''F'',
          Nationality = None, Disease = None, Symptoms = None\<rparr>,
        \<lparr>Name = Some ''ann  lee'', DOB = None, Gender = Some ''female'',
          Nationality = None, Disease = None, Symptoms = None\<rparr>,
        \<lparr>Name = Some ''Bob Ray'', DOB = None, Gender = Some ''M'',
          Nationality = None, Disease = None, Symptoms = None\<rparr>])]"

section \<open>Properties of the helpers\<close>

subsection \<open>Characters\<close>

lemma code_space: "code (CHR '' '') = 32"
  by (simp add: code_def)

lemma is_space_space: "is_space (CHR '' '')"
  by (simp add: is_space_def code_space)

lemma not_word_space: "is_space c \<Longrightarrow> \<not> is_word c"
  unfolding is_space_def is_word_def by arith

lemma lower_char_space: "is_space c \<Longrightarrow> lower_char c = c"
  unfolding is_space_def lower_char_def by auto

lemma code_char_of: "n < 256 \<Longrightarrow> code (char_of n) = n"
  by (simp add: code_def)

lemma lower_char_idem: "lower_char (lower_char c) = lower_char c"
proof (cases "(65 \<le> code c \<and> code c \<le> 90) \<or> (192 \<le> code c \<and> code c \<le> 222 \<and> code c \<noteq> 215)")
  case True
  define d where "d = char_of (code c + 32)"
  from True have "code d = code c + 32"
    unfolding d_def by (intro code_char_of) arith
  with True have "\<not> ((65 \<le> code d \<and> code d \<le> 90) \<or> (192 \<le> code d \<and> code d \<le> 222 \<and> code d \<noteq> 215))"
    by arith
  then have "lower_char d = d"
    by (auto simp: lower_char_def)
  moreover from True have "lower_char c = d"
    by (auto simp: lower_char_def d_def)
  ultimately show ?thesis by simp
next
  case False
  then have "lower_char c = c"
    by (auto simp: lower_char_def)
  then show ?thesis by simp
qed

subsection \<open>The stages of normalize\_name\<close>

lemma set_sub_punct: "c \<in> set (sub_punct s) \<Longrightarrow> is_word c \<or> is_space c"
  by (auto simp: sub_punct_def is_space_space split: if_splits)

lemma sub_punct_id: "\<forall>c \<in> set s. is_word c \<or> is_space c \<Longrightarrow> sub_punct s = s"
  by (simp add: sub_punct_def map_idI)

lemma lower_id: "\<forall>c \<in> set s. lower_char c = c \<Longrightarrow> lower s = s"
  by (simp add: lower_def map_idI)

lemma lower_stable_sub_punct:
  "\<forall>c \<in> set s. lower_char c = c \<Longrightarrow> c \<in> set (sub_punct s) \<Longrightarrow> lower_char c = c"
  by (auto simp: sub_punct_def lower_char_space is_space_space split: if_splits)

lemma set_sub_spaces:
  "c \<in> set (sub_spaces s) \<Longrightarrow> c = CHR '' '' \<or> (c \<in> set s \<and> \<not> is_space c)"
  by (induction s rule: sub_spaces.induct) (auto split: if_splits dest: set_dropWhileD)

lemma set_strip: "c \<in> set (strip s) \<Longrightarrow> c \<in> set s"
  unfolding strip_def rstrip_def lstrip_def
  by (auto dest!: set_dropWhileD)

lemma filter_word_sub_punct: "filter is_word (sub_punct s) = filter is_word s"
  unfolding sub_punct_def
  by (induction s) (auto simp: not_word_space is_space_space)

lemma filter_word_dropWhile: "filter is_word (dropWhile is_space s) = filter is_word s"
  by (induction s) (auto simp: not_word_space)

lemma filter_word_sub_spaces: "filter is_word (sub_spaces s) = filter is_word s"
  by (induction s rule: sub_spaces.induct)
     (auto simp: not_word_space is_space_space filter_word_dropWhile)

lemma filter_word_strip: "filter is_word (strip s) = filter is_word s"
proof -
  have "filter is_word (rstrip t) = filter is_word t" for t
  proof -
    have "rev (filter is_word (rstrip t)) = rev (filter is_word t)"
      unfolding rstrip_def rev_filter rev_rev_ident
      by (simp add: filter_word_dropWhile)
    then show ?thesis by simp
  qed
  then show ?thesis
    by (simp add: strip_def lstrip_def filter_word_dropWhile)
qed

lemma sub_spaces_hd: "sub_spaces s = d # ds \<Longrightarrow> is_space d \<Longrightarrow> \<exists>c cs. s = c # cs \<and> is_space c"
  by (cases s) (auto split: if_splits)

lemma dropWhile_hd: "dropWhile P s = d # ds \<Longrightarrow> \<not> P d"
  by (metis hd_dropWhile list.sel(1) list.distinct(1))

lemma single_spaced_sub_spaces: "single_spaced (sub_spaces s)"
proof (induction s rule: sub_spaces.induct)
  case 1
  show ?case by simp
next
  case (2 c cs)
  show ?case
  proof (cases "is_space c")
    case True
    show ?thesis
    proof (cases "sub_spaces (dropWhile is_space cs)")
      case Nil
      with True show ?thesis by (simp add: is_space_space)
    next
      case (Cons d ds)
      have "\<not> is_space d"
      proof
        assume "is_space d"
        with Cons obtain e es where "dropWhile is_space cs = e # es" "is_space e"
          using sub_spaces_hd by blast
        then show False using dropWhile_hd by fastforce
      qed
      with True Cons 2(1) show ?thesis by simp
    qed
  next
    case False
    with 2(2) show ?thesis
      by (cases "sub_spaces cs") auto
  qed
qed

lemma single_spaced_tl: "single_spaced (c # cs) \<Longrightarrow> single_spaced cs"
  by (cases cs) auto

lemma single_spaced_dropWhile: "single_spaced s \<Longrightarrow> single_spaced (dropWhile P s)"
  by (induction s) (auto dest: single_spaced_tl)

lemma single_spaced_append: "single_spaced (xs @ ys) \<Longrightarrow> single_spaced xs"
proof (induction xs rule: single_spaced.induct)
  case 1
  show ?case by simp
next
  case (2 c)
  then show ?case by (cases ys) auto
next
  case (3 c d cs)
  then show ?case by auto
qed

lemma single_spaced_rstrip: "single_spaced s \<Longrightarrow> single_spaced (rstrip s)"
proof -
  assume s: "single_spaced s"
  have "s = rstrip s @ rev (takeWhile is_space (rev s))"
    unfolding rstrip_def
    by (metis rev_append rev_rev_ident takeWhile_dropWhile_id)
  with s show ?thesis
    by (metis single_spaced_append)
qed

lemma single_spaced_strip: "single_spaced s \<Longrightarrow> single_spaced (strip s)"
  by (simp add: strip_def lstrip_def single_spaced_rstrip single_spaced_dropWhile)

lemma sub_spaces_id: "single_spaced s \<Longrightarrow> sub_spaces s = s"
proof (induction s rule: single_spaced.induct)
  case 1
  show ?case by simp
next
  case (2 c)
  then show ?case by auto
next
  case (3 c d cs)
  then show ?case by auto
qed

lemma lstrip_id: "s = [] \<or> \<not> is_space (hd s) \<Longrightarrow> lstrip s = s"
  by (cases s) (auto simp: lstrip_def)

lemma rstrip_id: "s = [] \<or> \<not> is_space (last s) \<Longrightarrow> rstrip s = s"
  by (cases s rule: rev_cases) (auto simp: rstrip_def)

lemma lstrip_ends: "lstrip s = [] \<or> \<not> is_space (hd (lstrip s))"
  unfolding lstrip_def by (metis hd_dropWhile)

lemma rstrip_ends: "rstrip s = [] \<or> \<not> is_space (last (rstrip s))"
  unfolding rstrip_def
  by (metis hd_dropWhile last_rev rev_is_Nil_conv)

lemma hd_rstrip: "s \<noteq> [] \<Longrightarrow> \<not> is_space (hd s) \<Longrightarrow> rstrip s \<noteq> [] \<and> hd (rstrip s) = hd s"
proof -
  assume "s \<noteq> []" and h: "\<not> is_space (hd s)"
  then obtain c cs where s: "s = c # cs" by (cases s) auto
  have "dropWhile is_space (rev cs @ [c]) = dropWhile is_space (rev cs) @ [c]"
    using h s by (simp add: dropWhile_append)
  then have "rstrip s = c # rev (dropWhile is_space (rev cs))"
    by (simp add: rstrip_def s)
  then show ?thesis by (simp add: s)
qed

lemma strip_ends:
  "strip s = [] \<or> (\<not> is_space (hd (strip s)) \<and> \<not> is_space (last (strip s)))"
  unfolding strip_def
  using lstrip_ends [of s] rstrip_ends [of "lstrip s"] hd_rstrip [of "lstrip s"]
  by (cases "lstrip s = []") (auto simp: rstrip_def)

lemma strip_id:
  "s = [] \<or> (\<not> is_space (hd s) \<and> \<not> is_space (last s)) \<Longrightarrow> strip s = s"
  by (auto simp: strip_def lstrip_id rstrip_id)

text \<open>
  C4. The phonetic encoder gives \<^verbatim>\<open>R163\<close> for \<^verbatim>\<open>Robert\<close> and for \<^verbatim>\<open>Rupert\<close>, and the
  empty string for the empty string.
\<close>

theorem soundex_known_values:
  "soundex ''Robert'' = ''R163'' \<and> soundex ''Rupert'' = ''R163'' \<and> soundex '''' = ''''"
  by code_simp


lemma single_spaced_nth:
  "single_spaced s \<Longrightarrow> Suc i < length s \<Longrightarrow> is_space (s ! i) \<Longrightarrow> \<not> is_space (s ! Suc i)"
proof (induction s arbitrary: i rule: single_spaced.induct)
  case 1
  then show ?case by simp
next
  case (2 c)
  then show ?case by simp
next
  case (3 c d cs)
  then show ?case by (cases i) auto
qed

lemma normalize_name_chars:
  assumes "c \<in> set (normalize_name (Some s))"
  shows "(is_word c \<and> lower_char c = c) \<or> c = CHR '' ''"
proof -
  from assms have "c \<in> set (sub_spaces (sub_punct (lower s)))"
    by (auto simp: normalize_name_def dest: set_strip)
  then consider "c = CHR '' ''" | "c \<in> set (sub_punct (lower s))" "\<not> is_space c"
    using set_sub_spaces by blast
  then show ?thesis
  proof cases
    case 1
    then show ?thesis by simp
  next
    case 2
    have "\<forall>d \<in> set (lower s). lower_char d = d"
      by (auto simp: lower_def lower_char_idem)
    with 2 show ?thesis
      using lower_stable_sub_punct set_sub_punct by blast
  qed
qed

lemma normalize_name_fixed:
  assumes chars: "\<forall>c \<in> set z. (is_word c \<and> lower_char c = c) \<or> c = CHR '' ''"
    and spaced: "single_spaced z"
    and ends: "z = [] \<or> (\<not> is_space (hd z) \<and> \<not> is_space (last z))"
  shows "normalize_name (Some z) = z"
proof -
  have "lower_char c = c" if "c \<in> set z" for c
    using chars that lower_char_space [OF is_space_space] by blast
  then have "lower z = z"
    by (intro lower_id) blast
  moreover have "is_word c \<or> is_space c" if "c \<in> set z" for c
    using chars that is_space_space by blast
  then have "sub_punct z = z"
    by (intro sub_punct_id) blast
  moreover from spaced have "sub_spaces z = z"
    by (rule sub_spaces_id)
  moreover from ends have "strip z = z"
    by (rule strip_id)
  ultimately show ?thesis
    by (simp add: normalize_name_def)
qed

lemma normalize_name_spaced: "single_spaced (normalize_name x)"
  by (cases x) (simp_all add: normalize_name_def single_spaced_strip single_spaced_sub_spaces)

lemma normalize_name_ends:
  "normalize_name x = [] \<or>
   (\<not> is_space (hd (normalize_name x)) \<and> \<not> is_space (last (normalize_name x)))"
  by (cases x) (simp_all add: normalize_name_def strip_ends)

lemma not_word_sp: "\<not> is_word (CHR '' '')"
  using not_word_space [OF is_space_space] .

lemma word_runs_dropWhile_space: "word_runs (dropWhile is_space s) = word_runs s"
  by (induction s) (auto simp: not_word_space)

lemma takeWhile_word_append:
  "\<forall>c \<in> set sp. \<not> is_word c \<Longrightarrow> takeWhile is_word (cs @ sp) = takeWhile is_word cs"
  by (induction cs) (auto simp: takeWhile_eq_Nil_iff)

lemma dropWhile_word_append:
  "\<forall>c \<in> set sp. \<not> is_word c \<Longrightarrow> dropWhile is_word (cs @ sp) = dropWhile is_word cs @ sp"
  by (induction cs) (auto simp: dropWhile_eq_self_iff)

lemma word_runs_no_word: "\<forall>c \<in> set sp. \<not> is_word c \<Longrightarrow> word_runs sp = []"
  by (induction sp) auto

lemma word_runs_append_spaces:
  "\<forall>c \<in> set sp. \<not> is_word c \<Longrightarrow> word_runs (v @ sp) = word_runs v"
proof (induction v rule: word_runs.induct)
  case 1
  then show ?case by (simp add: word_runs_no_word)
next
  case (2 c cs)
  then show ?case
    by (simp add: takeWhile_word_append dropWhile_word_append)
qed

lemma word_runs_rstrip: "word_runs (rstrip s) = word_runs s"
proof -
  have s: "s = rstrip s @ rev (takeWhile is_space (rev s))"
    unfolding rstrip_def
    by (metis rev_append rev_rev_ident takeWhile_dropWhile_id)
  have "\<forall>c \<in> set (rev (takeWhile is_space (rev s))). \<not> is_word c"
    by (auto dest: set_takeWhileD simp: not_word_space)
  from word_runs_append_spaces [OF this, of "rstrip s"] s show ?thesis
    by simp
qed

lemma word_runs_strip: "word_runs (strip s) = word_runs s"
  by (simp add: strip_def lstrip_def word_runs_rstrip word_runs_dropWhile_space)

lemma takeWhile_word_sub_spaces: "takeWhile is_word (sub_spaces s) = takeWhile is_word s"
  by (induction s rule: sub_spaces.induct) (auto simp: not_word_space not_word_sp)

lemma dropWhile_word_sub_spaces: "dropWhile is_word (sub_spaces s) = sub_spaces (dropWhile is_word s)"
  by (induction s rule: sub_spaces.induct) (auto simp: not_word_space not_word_sp)

lemma word_runs_sub_spaces: "word_runs (sub_spaces s) = word_runs s"
proof (induction "length s" arbitrary: s rule: less_induct)
  case less
  show ?case
  proof (cases s)
    case Nil
    then show ?thesis by simp
  next
    case (Cons c cs)
    show ?thesis
    proof (cases "is_space c")
      case True
      have "length (dropWhile is_space cs) < length s"
        using length_dropWhile_le [of is_space cs] by (simp add: Cons)
      from less [OF this] True show ?thesis
        by (simp add: Cons not_word_sp not_word_space word_runs_dropWhile_space)
    next
      case False
      show ?thesis
      proof (cases "is_word c")
        case True
        have "length (dropWhile is_word cs) < length s"
          using length_dropWhile_le [of is_word cs] by (simp add: Cons)
        from less [OF this] True False show ?thesis
          by (simp add: Cons takeWhile_word_sub_spaces dropWhile_word_sub_spaces)
      next
        case nw: False
        have "length cs < length s" by (simp add: Cons)
        from less [OF this] nw False show ?thesis
          by (simp add: Cons)
      qed
    qed
  qed
qed

lemma sub_punct_word: "is_word c \<Longrightarrow> (if is_word c \<or> is_space c then c else CHR '' '') = c"
  by simp

lemma takeWhile_word_sub_punct: "takeWhile is_word (sub_punct s) = takeWhile is_word s"
  unfolding sub_punct_def
  by (induction s) (auto simp: not_word_space not_word_sp)

lemma dropWhile_word_sub_punct: "dropWhile is_word (sub_punct s) = sub_punct (dropWhile is_word s)"
  unfolding sub_punct_def
  by (induction s) (auto simp: not_word_space not_word_sp)

lemma word_runs_sub_punct: "word_runs (sub_punct s) = word_runs s"
proof (induction s rule: word_runs.induct)
  case 1
  show ?case by (simp add: sub_punct_def)
next
  case (2 c cs)
  show ?case
  proof (cases "is_word c")
    case True
    have "sub_punct (c # cs) = c # sub_punct cs"
      using True by (simp add: sub_punct_def)
    with True 2(1) show ?thesis
      by (simp add: takeWhile_word_sub_punct dropWhile_word_sub_punct)
  next
    case False
    have "\<exists>d. \<not> is_word d \<and> sub_punct (c # cs) = d # sub_punct cs"
      using False by (auto simp: sub_punct_def not_word_sp)
    with False 2(2) show ?thesis by auto
  qed
qed

lemma word_runs_normalize_name:
  "word_runs (normalize_name (Some s)) = word_runs (lower s)"
  by (simp add: normalize_name_def word_runs_strip word_runs_sub_spaces word_runs_sub_punct)

lemma join_word_runs:
  assumes "\<forall>c \<in> set z. is_word c \<or> c = CHR '' ''" "single_spaced z"
    and "z = [] \<or> (\<not> is_space (hd z) \<and> \<not> is_space (last z))"
  shows "join_spaces (word_runs z) = z"
  using assms
proof (induction "length z" arbitrary: z rule: less_induct)
  case less
  show ?case
  proof (cases z)
    case Nil
    then show ?thesis by simp
  next
    case (Cons c cs)
    with less.prems have c: "is_word c"
      using is_space_space by auto
    show ?thesis
    proof (cases "dropWhile is_word cs")
      case Nil
      then have tw: "takeWhile is_word cs = cs"
        by (metis append_Nil2 takeWhile_dropWhile_id)
      have "word_runs (c # cs) = (c # takeWhile is_word cs) # word_runs (dropWhile is_word cs)"
        using c by simp
      then have "word_runs (c # cs) = [c # cs]"
        unfolding Nil tw by simp
      then show ?thesis by (simp add: \<open>z = c # cs\<close>)
    next
      case (Cons d ds)
      note rest = Cons
      then have "\<not> is_word d" by (rule dropWhile_hd)
      moreover have "d \<in> set z"
        using rest set_dropWhileD [of d is_word cs] by (simp add: \<open>z = c # cs\<close>)
      ultimately have d: "d = CHR '' ''"
        using less.prems(1) by blast
      have split: "z = (c # takeWhile is_word cs) @ CHR '' '' # ds"
        using takeWhile_dropWhile_id [of is_word cs] rest d by (simp add: \<open>z = c # cs\<close>)
      have "single_spaced (dropWhile is_word z)"
        by (rule single_spaced_dropWhile [OF less.prems(2)])
      then have sp: "single_spaced (CHR '' '' # ds)"
        using c rest d by (simp add: \<open>z = c # cs\<close>)
      have "ds \<noteq> []"
      proof
        assume "ds = []"
        with split have "last z = CHR '' ''" by simp
        with less.prems(3) \<open>z = c # cs\<close> is_space_space show False by simp
      qed
      then obtain e es where ds: "ds = e # es" by (cases ds) auto
      with sp have e: "\<not> is_space e" and sds: "single_spaced ds"
        using is_space_space by simp_all
      have chars: "\<forall>c \<in> set ds. is_word c \<or> c = CHR '' ''"
        using less.prems(1) split by auto
      with e ds have we: "is_word e"
        using is_space_space by auto
      have "last ds = last z"
        using split \<open>ds \<noteq> []\<close> by simp
      with less.prems(3) e ds have ends: "ds = [] \<or> (\<not> is_space (hd ds) \<and> \<not> is_space (last ds))"
        by (simp add: \<open>z = c # cs\<close>)
      have "length ds < length z"
        using split by simp
      from less.hyps [OF this chars sds ends] have ih: "join_spaces (word_runs ds) = ds" .
      from we ds obtain v vs where v: "word_runs ds = v # vs"
        by simp
      have "word_runs z = (c # takeWhile is_word cs) # word_runs ds"
        using c rest d not_word_space [OF is_space_space] by (simp add: \<open>z = c # cs\<close>)
      then have "join_spaces (word_runs z) = (c # takeWhile is_word cs) @ CHR '' '' # join_spaces (word_runs ds)"
        by (simp add: v)
      with ih split show ?thesis by simp
    qed
  qed
qed

lemma normalize_name_words:
  "normalize_name (Some s) = join_spaces (word_runs (lower s))"
proof -
  have "join_spaces (word_runs (normalize_name (Some s))) = normalize_name (Some s)"
  proof (rule join_word_runs)
    show "\<forall>c \<in> set (normalize_name (Some s)). is_word c \<or> c = CHR '' ''"
      using normalize_name_chars by blast
    show "single_spaced (normalize_name (Some s))"
      by (rule normalize_name_spaced)
    show "normalize_name (Some s) = [] \<or>
      (\<not> is_space (hd (normalize_name (Some s))) \<and> \<not> is_space (last (normalize_name (Some s))))"
      by (rule normalize_name_ends)
  qed
  then show ?thesis
    by (simp add: word_runs_normalize_name)
qed

text \<open>
  C5, as amended. A missing name gives the empty string. Otherwise the name is put in
  lower case, every character that is neither a word character nor white space
  becomes a space, every run of white space becomes one space, and white space at both
  ends is removed. A word character is a character of Python's class \<^verbatim>\<open>\w\<close>: the
  underscore, or a character for which \<^verbatim>\<open>str.isalnum\<close> is true, which are the letters,
  the decimal digits and the other numeric characters such as the fraction U+00BD.
  The result is the maximal runs of word characters of the lower-cased name, joined by
  single spaces: it holds word characters in lower case and spaces only, no space at
  either end and no two spaces in a row, and its word characters are those of the
  lower-cased input, in order.
\<close>

theorem normalize_name_shape:
  "normalize_name None = '''' \<and>
   normalize_name (Some s) = strip (sub_spaces (sub_punct (lower s))) \<and>
   normalize_name (Some s) = join_spaces (word_runs (lower s)) \<and>
   (\<forall>c \<in> set (normalize_name (Some s)). (is_word c \<and> lower_char c = c) \<or> c = CHR '' '') \<and>
   (normalize_name (Some s) \<noteq> [] \<longrightarrow>
      hd (normalize_name (Some s)) \<noteq> CHR '' '' \<and> last (normalize_name (Some s)) \<noteq> CHR '' '') \<and>
   (\<forall>i. Suc i < length (normalize_name (Some s)) \<longrightarrow>
      \<not> (normalize_name (Some s) ! i = CHR '' '' \<and> normalize_name (Some s) ! Suc i = CHR '' '')) \<and>
   filter is_word (normalize_name (Some s)) = filter is_word (lower s)"
proof (intro conjI)
  show "normalize_name None = ''''"
    by (simp add: normalize_name_def)
  show "normalize_name (Some s) = strip (sub_spaces (sub_punct (lower s)))"
    by (simp add: normalize_name_def)
  show "normalize_name (Some s) = join_spaces (word_runs (lower s))"
    by (rule normalize_name_words)
  show "\<forall>c \<in> set (normalize_name (Some s)). (is_word c \<and> lower_char c = c) \<or> c = CHR '' ''"
    using normalize_name_chars by blast
  show "normalize_name (Some s) \<noteq> [] \<longrightarrow>
      hd (normalize_name (Some s)) \<noteq> CHR '' '' \<and> last (normalize_name (Some s)) \<noteq> CHR '' ''"
    using normalize_name_ends [of "Some s"] is_space_space by auto
  show "\<forall>i. Suc i < length (normalize_name (Some s)) \<longrightarrow>
      \<not> (normalize_name (Some s) ! i = CHR '' '' \<and> normalize_name (Some s) ! Suc i = CHR '' '')"
  proof (intro allI impI notI)
    fix i
    assume i: "Suc i < length (normalize_name (Some s))"
      and "normalize_name (Some s) ! i = CHR '' '' \<and> normalize_name (Some s) ! Suc i = CHR '' ''"
    then have "is_space (normalize_name (Some s) ! i)" "is_space (normalize_name (Some s) ! Suc i)"
      by (simp_all add: is_space_space)
    with i show False
      using single_spaced_nth [OF normalize_name_spaced [of "Some s"]] by blast
  qed
  show "filter is_word (normalize_name (Some s)) = filter is_word (lower s)"
    by (simp add: normalize_name_def filter_word_strip filter_word_sub_spaces
        filter_word_sub_punct)
qed

theorem normalize_name_shape_witness:
  "normalize_name (Some '' Jon-Smith,  JR_2 '') = ''jon smith jr_2'' \<and>
   normalize_name (Some '' Jon-Smith,  JR_2 '') =
     join_spaces (word_runs (lower '' Jon-Smith,  JR_2 '')) \<and>
   normalize_name (Some '' Jon-Smith,  JR_2 '') \<noteq> [] \<and>
   Suc 3 < length (normalize_name (Some '' Jon-Smith,  JR_2 '')) \<and>
   CHR ''_'' \<in> set (normalize_name (Some '' Jon-Smith,  JR_2 '')) \<and>
   ((is_word (CHR ''_'') \<and> lower_char (CHR ''_'') = CHR ''_'') \<or> CHR ''_'' = CHR '' '') \<and>
   hd (normalize_name (Some '' Jon-Smith,  JR_2 '')) \<noteq> CHR '' '' \<and>
   last (normalize_name (Some '' Jon-Smith,  JR_2 '')) \<noteq> CHR '' '' \<and>
   \<not> (normalize_name (Some '' Jon-Smith,  JR_2 '') ! 3 = CHR '' '' \<and>
      normalize_name (Some '' Jon-Smith,  JR_2 '') ! Suc 3 = CHR '' '')"
proof -
  have e: "normalize_name (Some '' Jon-Smith,  JR_2 '') = ''jon smith jr_2''"
    by code_simp
  have ne: "normalize_name (Some '' Jon-Smith,  JR_2 '') \<noteq> []"
    "Suc 3 < length (normalize_name (Some '' Jon-Smith,  JR_2 ''))"
    "CHR ''_'' \<in> set (normalize_name (Some '' Jon-Smith,  JR_2 ''))"
    unfolding e by simp_all
  from normalize_name_shape [of "'' Jon-Smith,  JR_2 ''"] ne e show ?thesis
    by blast
qed

text \<open>
  C5 as the specification states it fails: the underscore and the fraction U+00BD are
  neither letters nor digits nor white space, and they are kept, not replaced by a
  space.
\<close>

theorem normalize_name_underscore_counterexample:
  "normalize_name (Some ''a_b'') = ''a_b'' \<and> normalize_name (Some ''a_b'') \<noteq> ''a b'' \<and>
   normalize_name (Some [CHR 0xBD]) = [CHR 0xBD] \<and> normalize_name (Some [CHR 0xBD]) \<noteq> []"
  by code_simp

text \<open>
  C9. Normalizing a normalized name changes nothing, for every text and for a
  missing value.
\<close>

theorem normalize_name_idempotent:
  "normalize_name (Some (normalize_name x)) = normalize_name x"
proof (cases x)
  case None
  have "normalize_name (Some []) = []"
    by (simp add: normalize_name_def lower_def sub_punct_def strip_def lstrip_def rstrip_def)
  with None show ?thesis
    by (simp add: normalize_name_def)
next
  case (Some s)
  show ?thesis
    unfolding Some
    using normalize_name_chars normalize_name_spaced normalize_name_ends
    by (intro normalize_name_fixed) blast+
qed

section \<open>Properties of the blocking index\<close>

lemma build_blocks_snoc:
  "build_blocks (df @ [r]) = blocks_append (key_of r) (length df) (build_blocks df)"
  by (simp add: build_blocks_def enumerate_append_eq)

lemma keys_blocks_append: "fst ` set (blocks_append k i bs) = insert k (fst ` set bs)"
  by (induction k i bs rule: blocks_append.induct) auto

lemma distinct_blocks_append:
  "distinct (map fst bs) \<Longrightarrow> distinct (map fst (blocks_append k i bs))"
proof (induction k i bs rule: blocks_append.induct)
  case (1 k idx)
  show ?case by simp
next
  case (2 k idx k' idxs bs)
  then show ?case
    using keys_blocks_append [of k idx bs] by auto
qed

lemma set_blocks_append:
  "set (concat (map snd (blocks_append k i bs))) = insert i (set (concat (map snd bs)))"
  by (induction k i bs rule: blocks_append.induct) auto

lemma distinct_concat_blocks_append:
  "distinct (concat (map snd bs)) \<Longrightarrow> i \<notin> set (concat (map snd bs)) \<Longrightarrow>
   distinct (concat (map snd (blocks_append k i bs)))"
proof (induction k i bs rule: blocks_append.induct)
  case (1 k idx)
  show ?case by simp
next
  case (2 k idx k' idxs bs)
  then show ?case
    using set_blocks_append [of k idx bs] by auto
qed

lemma member_blocks_append:
  "(k', idxs) \<in> set (blocks_append k i bs) \<Longrightarrow> j \<in> set idxs \<Longrightarrow>
   (k' = k \<and> j = i) \<or> (\<exists>idxs'. (k', idxs') \<in> set bs \<and> j \<in> set idxs')"
  by (induction k i bs rule: blocks_append.induct) (auto split: if_splits)

lemma blocks_append_keeps:
  "(k', idxs) \<in> set bs \<Longrightarrow> j \<in> set idxs \<Longrightarrow>
   \<exists>idxs'. (k', idxs') \<in> set (blocks_append k i bs) \<and> j \<in> set idxs'"
  by (induction k i bs rule: blocks_append.induct) (auto split: if_splits)

lemma blocks_append_adds: "\<exists>idxs. (k, idxs) \<in> set (blocks_append k i bs) \<and> i \<in> set idxs"
  by (induction k i bs rule: blocks_append.induct) auto

lemma distinct_keys_build_blocks: "distinct (map fst (build_blocks df))"
proof (induction df rule: rev_induct)
  case Nil
  show ?case by (simp add: build_blocks_def)
next
  case (snoc r df)
  then show ?case
    by (simp add: build_blocks_snoc distinct_blocks_append)
qed

lemma set_build_blocks: "set (concat (map snd (build_blocks df))) = {0..<length df}"
proof (induction df rule: rev_induct)
  case Nil
  show ?case by (simp add: build_blocks_def)
next
  case (snoc r df)
  then show ?case
    unfolding build_blocks_snoc set_blocks_append by auto
qed

lemma distinct_build_blocks: "distinct (concat (map snd (build_blocks df)))"
proof (induction df rule: rev_induct)
  case Nil
  show ?case by (simp add: build_blocks_def)
next
  case (snoc r df)
  have "length df \<notin> set (concat (map snd (build_blocks df)))"
    unfolding set_build_blocks by simp
  with snoc show ?case
    unfolding build_blocks_snoc by (intro distinct_concat_blocks_append)
qed

lemma build_blocks_member:
  "(k, idxs) \<in> set (build_blocks df) \<Longrightarrow> j \<in> set idxs \<Longrightarrow>
   j < length df \<and> key_of (df ! j) = k"
proof (induction df arbitrary: idxs rule: rev_induct)
  case Nil
  then show ?case by (simp add: build_blocks_def)
next
  case (snoc r df)
  from snoc.prems consider "k = key_of r" "j = length df"
    | idxs' where "(k, idxs') \<in> set (build_blocks df)" "j \<in> set idxs'"
    unfolding build_blocks_snoc using member_blocks_append by fast
  then show ?case
  proof cases
    case 1
    then show ?thesis by simp
  next
    case 2
    with snoc.IH have "j < length df \<and> key_of (df ! j) = k" by blast
    then show ?thesis by (simp add: nth_append)
  qed
qed

lemma build_blocks_has:
  "j < length df \<Longrightarrow> \<exists>idxs. (key_of (df ! j), idxs) \<in> set (build_blocks df) \<and> j \<in> set idxs"
proof (induction df rule: rev_induct)
  case Nil
  then show ?case by simp
next
  case (snoc r df)
  show ?case
  proof (cases "j = length df")
    case True
    then show ?thesis
      unfolding build_blocks_snoc using blocks_append_adds [of "key_of r"] by simp
  next
    case False
    with snoc.prems have j: "j < length df" by simp
    with snoc.IH obtain idxs where "(key_of (df ! j), idxs) \<in> set (build_blocks df)" "j \<in> set idxs"
      by blast
    then have "\<exists>idxs'. (key_of (df ! j), idxs') \<in> set (build_blocks (df @ [r])) \<and> j \<in> set idxs'"
      unfolding build_blocks_snoc by (rule blocks_append_keeps)
    with j show ?thesis by (simp add: nth_append)
  qed
qed

lemma build_blocks_indices:
  "(k, idxs) \<in> set (build_blocks df) \<Longrightarrow> \<forall>j \<in> set idxs. j < length df"
  using build_blocks_member by blast

lemma build_blocks_unique:
  assumes "b \<in> set (build_blocks df)" "b' \<in> set (build_blocks df)"
    and "j \<in> set (snd b)" "j \<in> set (snd b')"
  shows "b = b'"
proof -
  obtain k idxs k' idxs' where b: "b = (k, idxs)" "b' = (k', idxs')"
    by (cases b, cases b') auto
  have "key_of (df ! j) = k"
    using build_blocks_member [of k idxs df j] assms by (simp add: b)
  moreover have "key_of (df ! j) = k'"
    using build_blocks_member [of k' idxs' df j] assms by (simp add: b)
  ultimately have k: "k = k'" by simp
  have d: "distinct (map fst (build_blocks df))"
    by (rule distinct_keys_build_blocks)
  have "(k, idxs) \<in> set (build_blocks df)"
    using assms(1) by (simp add: b)
  then have 1: "map_of (build_blocks df) k = Some idxs"
    using d by simp
  have "(k, idxs') \<in> set (build_blocks df)"
    using assms(2) by (simp add: b k)
  then have "map_of (build_blocks df) k = Some idxs'"
    using d by simp
  with 1 have "idxs = idxs'" by simp
  with k show ?thesis by (simp add: b)
qed

text \<open>
  C7. The member lists of the blocks hold every index of the records once and nothing
  else, the keys of the blocks differ, and every index is in one block only.
\<close>

theorem blocking_partition:
  "set (concat (map snd (build_blocks df))) = {0..<length df} \<and>
   distinct (concat (map snd (build_blocks df))) \<and>
   distinct (map fst (build_blocks df)) \<and>
   (\<forall>j < length df. \<exists>!b. b \<in> set (build_blocks df) \<and> j \<in> set (snd b))"
proof (intro conjI allI impI)
  show "set (concat (map snd (build_blocks df))) = {0..<length df}"
    by (rule set_build_blocks)
  show "distinct (concat (map snd (build_blocks df)))"
    by (rule distinct_build_blocks)
  show "distinct (map fst (build_blocks df))"
    by (rule distinct_keys_build_blocks)
  fix j
  assume "j < length df"
  then obtain idxs where "(key_of (df ! j), idxs) \<in> set (build_blocks df)" "j \<in> set idxs"
    using build_blocks_has by blast
  then have "(key_of (df ! j), idxs) \<in> set (build_blocks df) \<and>
      j \<in> set (snd (key_of (df ! j), idxs))"
    by simp
  then show "\<exists>!b. b \<in> set (build_blocks df) \<and> j \<in> set (snd b)"
    using build_blocks_unique by blast
qed

theorem blocking_partition_witness:
  "(1::nat) < length [\<lparr>Name_norm = ''ann lee'', DOB_parsed = None, Gender_norm = ''female'', Soundex = ''A500''\<rparr>,
                      \<lparr>Name_norm = ''bob'', DOB_parsed = Some (Timestamp ''1990-01-01T00:00:00''),
                        Gender_norm = ''male'', Soundex = ''B100''\<rparr>] \<and>
   (\<exists>!b. b \<in> set (build_blocks
        [\<lparr>Name_norm = ''ann lee'', DOB_parsed = None, Gender_norm = ''female'', Soundex = ''A500''\<rparr>,
         \<lparr>Name_norm = ''bob'', DOB_parsed = Some (Timestamp ''1990-01-01T00:00:00''),
           Gender_norm = ''male'', Soundex = ''B100''\<rparr>]) \<and> 1 \<in> set (snd b))"
  using blocking_partition
    [of "[\<lparr>Name_norm = ''ann lee'', DOB_parsed = None, Gender_norm = ''female'', Soundex = ''A500''\<rparr>,
          \<lparr>Name_norm = ''bob'', DOB_parsed = Some (Timestamp ''1990-01-01T00:00:00''),
            Gender_norm = ''male'', Soundex = ''B100''\<rparr>]"]
  by simp

section \<open>Properties of the disjoint-set forest\<close>

lemma root_of_fun: "root_of p i r \<Longrightarrow> root_of p i r' \<Longrightarrow> r = r'"
proof (induction arbitrary: r' rule: root_of.induct)
  case (here i)
  from here.prems here.hyps show ?case
    by (cases rule: root_of.cases) auto
next
  case (up i r)
  from up.prems up.hyps show ?case
    by (cases rule: root_of.cases) (auto intro: up.IH)
qed

lemma root_of_bounds: "root_of p i r \<Longrightarrow> i < length p \<and> r < length p \<and> p ! r = r"
  by (induction rule: root_of.induct) auto

lemma root_of_parent: "i < length p \<Longrightarrow> root_of p (p ! i) r \<longleftrightarrow> root_of p i r"
proof (cases "p ! i = i")
  case True
  then show ?thesis by simp
next
  case False
  assume "i < length p"
  with False show ?thesis
    by (auto intro: root_of.up elim: root_of.cases)
qed

lemma root_of_total:
  assumes "ranked h p"
  shows "i < length p \<Longrightarrow> \<exists>r. root_of p i r"
proof (induction "h i" arbitrary: i rule: less_induct)
  case less
  show ?case
  proof (cases "p ! i = i")
    case True
    with less.prems show ?thesis by (auto intro: root_of.here)
  next
    case False
    with assms less.prems have "p ! i < length p" "h (p ! i) < h i"
      by (auto simp: ranked_def)
    then obtain r where "root_of p (p ! i) r"
      using less.hyps by blast
    with False less.prems show ?thesis by (auto intro: root_of.up)
  qed
qed

lemma ranked_grand:
  assumes "ranked h p" "a < length p" "p ! a \<noteq> a"
  shows "p ! (p ! a) < length p \<and> p ! (p ! a) \<noteq> a \<and> h (p ! (p ! a)) < h a"
proof -
  from assms have b: "p ! a < length p" "h (p ! a) < h a"
    by (auto simp: ranked_def)
  with assms(1) have g: "p ! (p ! a) < length p" "p ! (p ! a) \<noteq> p ! a \<longrightarrow> h (p ! (p ! a)) < h (p ! a)"
    by (auto simp: ranked_def)
  with b have "h (p ! (p ! a)) < h a"
    by (cases "p ! (p ! a) = p ! a") auto
  with g show ?thesis by auto
qed

lemma ranked_halve:
  assumes "ranked h p" "a < length p"
  shows "ranked h (p[a := p ! (p ! a)])"
proof (cases "p ! a = a")
  case True
  then have "p[a := p ! (p ! a)] = p" by (metis list_update_id)
  with assms show ?thesis by simp
next
  case False
  note g = ranked_grand [OF assms False]
  show ?thesis
    unfolding ranked_def
  proof (intro allI impI)
    fix i
    assume "i < length (p[a := p ! (p ! a)])"
    then have i: "i < length p" by simp
    show "p[a := p ! (p ! a)] ! i < length (p[a := p ! (p ! a)]) \<and>
          (p[a := p ! (p ! a)] ! i \<noteq> i \<longrightarrow> h (p[a := p ! (p ! a)] ! i) < h i)"
    proof (cases "i = a")
      case True
      with g assms show ?thesis by simp
    next
      case False
      with assms i show ?thesis by (simp add: ranked_def)
    qed
  qed
qed

lemma root_of_halve_imp:
  assumes "ranked h p" "a < length p"
  shows "root_of p i r \<Longrightarrow> root_of (p[a := p ! (p ! a)]) i r"
proof (cases "p ! a = a")
  case True
  then have "p[a := p ! (p ! a)] = p" by (metis list_update_id)
  then show "root_of p i r \<Longrightarrow> ?thesis" by simp
next
  case False
  note g = ranked_grand [OF assms False]
  define q where "q = p[a := p ! (p ! a)]"
  have qa: "q ! a = p ! (p ! a)" and qi: "\<And>j. j \<noteq> a \<Longrightarrow> q ! j = p ! j" and len: "length q = length p"
    using assms by (simp_all add: q_def)
  assume "root_of p i r"
  then have "root_of q i r"
  proof (induction rule: root_of.induct)
    case (here i)
    with False have "i \<noteq> a" by auto
    with here show ?case by (auto intro: root_of.here simp: qi len)
  next
    case (up i r)
    show ?case
    proof (cases "i = a")
      case ia: True
      have b: "q ! (p ! a) = p ! (p ! a)"
        using False g qi by (metis)
      have "root_of q (p ! (p ! a)) r"
      proof (cases "p ! (p ! a) = p ! a")
        case True
        with up.IH ia show ?thesis by simp
      next
        case False
        from up.IH ia have "root_of q (p ! a) r" by simp
        then show ?thesis
          using False b by (cases rule: root_of.cases) auto
      qed
      with g ia assms show ?thesis
        by (auto intro: root_of.up simp: qa len)
    next
      case False
      with up show ?thesis
        by (auto intro: root_of.up simp: qi len)
    qed
  qed
  then show ?thesis by (simp add: q_def)
qed

lemma root_of_halve:
  assumes "ranked h p" "a < length p"
  shows "root_of (p[a := p ! (p ! a)]) i r \<longleftrightarrow> root_of p i r"
proof
  assume "root_of p i r"
  then show "root_of (p[a := p ! (p ! a)]) i r"
    by (rule root_of_halve_imp [OF assms])
next
  assume q: "root_of (p[a := p ! (p ! a)]) i r"
  then have "i < length p"
    using root_of_bounds by fastforce
  then obtain r0 where r0: "root_of p i r0"
    using root_of_total [OF assms(1)] by blast
  then have "root_of (p[a := p ! (p ! a)]) i r0"
    by (rule root_of_halve_imp [OF assms])
  with q have "r = r0" by (rule root_of_fun)
  with r0 show "root_of p i r" by simp
qed

text \<open>\<^verbatim>\<open>find\<close> returns the root, and leaves a forest with the same roots.\<close>

lemma DSU_find_root:
  assumes "ranked h (parent s)" "a < length (parent s)" "root_of (parent s) a r"
  shows "\<exists>s'. DSU_find s a = Some (Inr (s', r)) \<and> ranked h (parent s') \<and>
      length (parent s') = length (parent s) \<and> size_d s' = size_d s \<and>
      (\<forall>i r'. root_of (parent s') i r' \<longleftrightarrow> root_of (parent s) i r')"
  using assms
proof (induction "h a" arbitrary: s a rule: less_induct)
  case less
  show ?case
  proof (cases "parent s ! a = a")
    case True
    with less.prems have "r = a"
      by (auto elim: root_of.cases)
    with True less.prems show ?thesis
      by (subst DSU_find.simps) auto
  next
    case False
    define g where "g = parent s ! (parent s ! a)"
    define s' where "s' = s\<lparr>parent := (parent s)[a := g]\<rparr>"
    note gr = ranked_grand [OF less.prems(1,2) False]
    have b: "parent s ! a < length (parent s)"
      using less.prems by (simp add: ranked_def)
    have step: "DSU_find s a = DSU_find s' g"
      using False b less.prems(2) by (subst DSU_find.simps) (simp add: s'_def g_def)
    have r': "ranked h (parent s')"
      using ranked_halve [OF less.prems(1,2)] by (simp add: s'_def g_def)
    have eq: "root_of (parent s') i r' \<longleftrightarrow> root_of (parent s) i r'" for i r'
      using root_of_halve [OF less.prems(1,2)] by (simp add: s'_def g_def)
    have "root_of (parent s) g r"
      using less.prems(3) b less.prems(2) by (simp add: g_def root_of_parent)
    then have "root_of (parent s') g r" by (simp add: eq)
    moreover have "g < length (parent s')" "h g < h a"
      using gr by (simp_all add: s'_def g_def)
    ultimately obtain s'' where "DSU_find s' g = Some (Inr (s'', r))" "ranked h (parent s'')"
      "length (parent s'') = length (parent s')" "size_d s'' = size_d s'"
      "\<forall>i r'. root_of (parent s'') i r' \<longleftrightarrow> root_of (parent s') i r'"
      using less.hyps [of g s'] r' by blast
    then show ?thesis
      by (intro exI [of _ s'']) (simp add: step eq, simp add: s'_def)
  qed
qed

lemma root_of_finite: "finite {i. root_of p i r}"
proof (rule finite_subset)
  show "{i. root_of p i r} \<subseteq> {..<length p}"
    using root_of_bounds by auto
qed simp

lemma dsu_inv_same_roots:
  assumes "dsu_inv n s" "forest (parent s')" "length (parent s') = n" "size_d s' = size_d s"
    and "root_of (parent s') = root_of (parent s)"
  shows "dsu_inv n s'"
proof -
  have "parent s ! r = r" if "r < n" "parent s' ! r = r" for r
  proof -
    from that assms(3) have "root_of (parent s') r r"
      by (auto intro: root_of.here)
    then have "root_of (parent s) r r"
      by (simp add: assms(5))
    then show ?thesis
      using root_of_bounds by blast
  qed
  with assms show ?thesis
    by (simp add: dsu_inv_def)
qed

lemma DSU_find_inv:
  assumes "dsu_inv n s" "a < n"
  shows "\<exists>s' r. DSU_find s a = Some (Inr (s', r)) \<and> root_of (parent s) a r \<and>
      dsu_inv n s' \<and> root_of (parent s') = root_of (parent s)"
proof -
  from assms obtain h where h: "ranked h (parent s)" and len: "length (parent s) = n"
    by (auto simp: dsu_inv_def forest_def)
  with assms obtain r where r: "root_of (parent s) a r"
    using root_of_total by blast
  from DSU_find_root [OF h _ r] assms len
  obtain s' where s': "DSU_find s a = Some (Inr (s', r))" "ranked h (parent s')"
    "length (parent s') = n" "size_d s' = size_d s"
    "\<forall>i r'. root_of (parent s') i r' \<longleftrightarrow> root_of (parent s) i r'"
    by auto
  then have same: "root_of (parent s') = root_of (parent s)"
    by (intro ext) simp
  from s' have "forest (parent s')"
    by (auto simp: forest_def)
  with assms(1) s' same have "dsu_inv n s'"
    by (intro dsu_inv_same_roots [of n s s']) simp_all
  with s' r same show ?thesis by blast
qed

lemma DSU_find_forest:
  assumes "forest_over n s" "a < n"
  shows "\<exists>s' r. DSU_find s a = Some (Inr (s', r)) \<and> root_of (parent s) a r \<and>
      forest_over n s' \<and> root_of (parent s') = root_of (parent s)"
proof -
  from assms obtain h where h: "ranked h (parent s)" and len: "length (parent s) = n"
    by (auto simp: forest_over_def forest_def)
  with assms obtain r where r: "root_of (parent s) a r"
    using root_of_total by blast
  from DSU_find_root [OF h _ r] assms len
  obtain s' where s': "DSU_find s a = Some (Inr (s', r))" "ranked h (parent s')"
    "length (parent s') = n"
    "\<forall>i r'. root_of (parent s') i r' \<longleftrightarrow> root_of (parent s) i r'"
    by auto
  then have same: "root_of (parent s') = root_of (parent s)"
    by (intro ext) simp
  from s' have "forest_over n s'"
    by (auto simp: forest_over_def forest_def)
  with s' r same show ?thesis by blast
qed

lemma dsu_inv_forest: "dsu_inv n s \<Longrightarrow> forest_over n s"
  by (simp add: dsu_inv_def forest_over_def)

lemma find_root_forest:
  assumes "forest_over n s" "a < n"
  shows "find_root s a = Some r \<longleftrightarrow> root_of (parent s) a r"
proof -
  from DSU_find_forest [OF assms] obtain s' r0 where
    f: "DSU_find s a = Some (Inr (s', r0))" and r0: "root_of (parent s) a r0"
    by blast
  from f have "find_root s a = Some r0"
    by (simp add: find_root_def)
  with r0 show ?thesis
    using root_of_fun by auto
qed

lemma find_root_iff:
  assumes "dsu_inv n s" "a < n"
  shows "find_root s a = Some r \<longleftrightarrow> root_of (parent s) a r"
proof -
  from DSU_find_inv [OF assms] obtain s' r0 where
    f: "DSU_find s a = Some (Inr (s', r0))" and r0: "root_of (parent s) a r0"
    by blast
  from f have "find_root s a = Some r0"
    by (simp add: find_root_def)
  with r0 show ?thesis
    using root_of_fun by auto
qed

subsection \<open>Linking two roots\<close>

lemma ranked_link:
  assumes "ranked h p" "pa < length p" "pb < length p" "p ! pa = pa" "p ! pb = pb" "pa \<noteq> pb"
  shows "ranked (\<lambda>i. if i = pa then h pa else h i + h pa + 1) (p[pb := pa])"
  unfolding ranked_def
proof (intro allI impI)
  fix i
  assume "i < length (p[pb := pa])"
  then have i: "i < length p" by simp
  let ?h = "\<lambda>i. if i = pa then h pa else h i + h pa + 1"
  show "p[pb := pa] ! i < length (p[pb := pa]) \<and>
        (p[pb := pa] ! i \<noteq> i \<longrightarrow> ?h (p[pb := pa] ! i) < ?h i)"
  proof (cases "i = pb")
    case True
    with assms show ?thesis by simp
  next
    case False
    then have q: "p[pb := pa] ! i = p ! i" by simp
    from assms(1) i have "p ! i < length p" "p ! i \<noteq> i \<longrightarrow> h (p ! i) < h i"
      by (auto simp: ranked_def)
    moreover have "p ! i \<noteq> i \<longrightarrow> i \<noteq> pa"
      using assms(4) by auto
    ultimately show ?thesis
      unfolding q by auto
  qed
qed

lemma root_of_link_other:
  assumes "p ! pb = pb"
  shows "root_of p i r \<Longrightarrow> r \<noteq> pb \<Longrightarrow> root_of (p[pb := pa]) i r"
proof (induction rule: root_of.induct)
  case (here i)
  then show ?case by (auto intro: root_of.here)
next
  case (up i r)
  with assms have "i \<noteq> pb" by auto
  with up show ?case by (auto intro: root_of.up)
qed

lemma root_of_link_merged:
  assumes "pa < length p" "p ! pa = pa" "pa \<noteq> pb"
  shows "root_of p i r \<Longrightarrow> r = pb \<Longrightarrow> root_of (p[pb := pa]) i pa"
proof (induction rule: root_of.induct)
  case (here i)
  from assms have "root_of (p[pb := pa]) pa pa"
    by (auto intro: root_of.here)
  with here assms show ?case
    by (auto intro: root_of.up)
next
  case (up i r)
  from up.hyps up.prems have "p ! pb = pb"
    using root_of_bounds by blast
  with up.hyps have "i \<noteq> pb" by auto
  with up show ?case by (auto intro: root_of.up)
qed

lemma root_of_link:
  assumes "ranked h p" "pa < length p" "pb < length p" "p ! pa = pa" "p ! pb = pb" "pa \<noteq> pb"
  shows "root_of (p[pb := pa]) i r \<longleftrightarrow> (if root_of p i pb then r = pa else root_of p i r)"
proof
  assume q: "root_of (p[pb := pa]) i r"
  then have "i < length p"
    using root_of_bounds by fastforce
  then obtain r0 where r0: "root_of p i r0"
    using root_of_total [OF assms(1)] by blast
  show "if root_of p i pb then r = pa else root_of p i r"
  proof (cases "r0 = pb")
    case True
    with r0 have "root_of (p[pb := pa]) i pa"
      using root_of_link_merged [OF assms(2,4,6)] by blast
    with q have "r = pa" by (rule root_of_fun)
    with True r0 show ?thesis by simp
  next
    case False
    with r0 have "root_of (p[pb := pa]) i r0"
      using root_of_link_other [OF assms(5)] by blast
    with q have "r = r0" by (rule root_of_fun)
    moreover from False r0 have "\<not> root_of p i pb"
      using root_of_fun by blast
    ultimately show ?thesis using r0 by simp
  qed
next
  assume c: "if root_of p i pb then r = pa else root_of p i r"
  show "root_of (p[pb := pa]) i r"
  proof (cases "root_of p i pb")
    case True
    with c show ?thesis
      using root_of_link_merged [OF assms(2,4,6)] by auto
  next
    case False
    with c have "root_of p i r" "r \<noteq> pb" by auto
    then show ?thesis
      by (rule root_of_link_other [OF assms(5)])
  qed
qed

lemma card_link:
  assumes "ranked h p" "pa < length p" "pb < length p" "p ! pa = pa" "p ! pb = pb" "pa \<noteq> pb"
  shows "card {i. root_of (p[pb := pa]) i pa} = card {i. root_of p i pa} + card {i. root_of p i pb}"
    and "r \<noteq> pa \<Longrightarrow> r \<noteq> pb \<Longrightarrow> {i. root_of (p[pb := pa]) i r} = {i. root_of p i r}"
proof -
  have "{i. root_of (p[pb := pa]) i pa} = {i. root_of p i pa} \<union> {i. root_of p i pb}"
    using root_of_link [OF assms] by auto
  moreover have "{i. root_of p i pa} \<inter> {i. root_of p i pb} = {}"
    using assms(6) root_of_fun by blast
  ultimately show "card {i. root_of (p[pb := pa]) i pa} = card {i. root_of p i pa} + card {i. root_of p i pb}"
    by (simp add: card_Un_disjoint root_of_finite)
next
  assume "r \<noteq> pa" "r \<noteq> pb"
  then show "{i. root_of (p[pb := pa]) i r} = {i. root_of p i r}"
    using root_of_link [OF assms] root_of_fun by auto
qed

lemma dsu_inv_link:
  assumes inv: "dsu_inv n s" and pa: "pa < n" "parent s ! pa = pa"
    and pb: "pb < n" "parent s ! pb = pb" and ne: "pa \<noteq> pb"
  shows "dsu_inv n (s\<lparr>parent := (parent s)[pb := pa],
                     size_d := (size_d s)[pa := size_d s ! pa + size_d s ! pb]\<rparr>)"
proof -
  from inv obtain h where h: "ranked h (parent s)" and len: "length (parent s) = n" "length (size_d s) = n"
    and sz: "\<And>r. r < n \<Longrightarrow> parent s ! r = r \<Longrightarrow> size_d s ! r = card {i. root_of (parent s) i r}"
    by (auto simp: dsu_inv_def forest_def)
  note args = h pa(1) [folded len(1)] pb(1) [folded len(1)] pa(2) pb(2) ne
  have "forest ((parent s)[pb := pa])"
    unfolding forest_def using ranked_link [OF args] by blast
  moreover have "(size_d s)[pa := size_d s ! pa + size_d s ! pb] ! r =
      card {i. root_of ((parent s)[pb := pa]) i r}"
    if r: "r < n" "(parent s)[pb := pa] ! r = r" for r
  proof -
    from r ne have "r \<noteq> pb" by (auto simp: len pb)
    with r have pr: "parent s ! r = r" by simp
    show ?thesis
    proof (cases "r = pa")
      case True
      then show ?thesis
        using card_link(1) [OF args] sz [OF pa] sz [OF pb] by (simp add: len pa)
    next
      case False
      then show ?thesis
        using card_link(2) [OF args False \<open>r \<noteq> pb\<close>] sz [OF r(1) pr] by simp
    qed
  qed
  ultimately show ?thesis
    by (simp add: dsu_inv_def len)
qed

text \<open>\<^verbatim>\<open>union\<close> returns, and keeps the forest and its sizes.\<close>

lemma DSU_union_inv:
  assumes "dsu_inv n s" "a < n" "b < n"
  shows "\<exists>s'. DSU_union s a b = Some (Inr s') \<and> dsu_inv n s'"
proof -
  from DSU_find_inv [OF assms(1,2)] obtain s1 pa where
    f1: "DSU_find s a = Some (Inr (s1, pa))" and i1: "dsu_inv n s1"
    and ra: "root_of (parent s) a pa" and e1: "root_of (parent s1) = root_of (parent s)"
    by blast
  from DSU_find_inv [OF i1 assms(3)] obtain s2 pb where
    f2: "DSU_find s1 b = Some (Inr (s2, pb))" and i2: "dsu_inv n s2"
    and rb: "root_of (parent s1) b pb" and e2: "root_of (parent s2) = root_of (parent s1)"
    by blast
  from i2 have len: "length (parent s2) = n" "length (size_d s2) = n"
    by (simp_all add: dsu_inv_def)
  from ra have "root_of (parent s2) a pa" by (simp add: e1 e2)
  then have pa: "pa < n" "parent s2 ! pa = pa"
    using root_of_bounds len by auto
  from rb have "root_of (parent s2) b pb" by (simp add: e2)
  then have pb: "pb < n" "parent s2 ! pb = pb"
    using root_of_bounds len by auto
  show ?thesis
  proof (cases "pa = pb")
    case True
    with f1 f2 i2 show ?thesis
      by (simp add: DSU_union_def)
  next
    case False
    show ?thesis
    proof (cases "size_d s2 ! pa < size_d s2 ! pb")
      case True
      have "dsu_inv n (s2\<lparr>parent := (parent s2)[pa := pb],
                     size_d := (size_d s2)[pb := size_d s2 ! pb + size_d s2 ! pa]\<rparr>)"
        using dsu_inv_link [OF i2 pb pa] False by auto
      with f1 f2 False True pa pb len show ?thesis
        by (simp add: DSU_union_def)
    next
      case lt: False
      have "dsu_inv n (s2\<lparr>parent := (parent s2)[pb := pa],
                     size_d := (size_d s2)[pa := size_d s2 ! pa + size_d s2 ! pb]\<rparr>)"
        using dsu_inv_link [OF i2 pa pb] False by auto
      with f1 f2 False lt pa pb len show ?thesis
        by (simp add: DSU_union_def)
    qed
  qed
qed

lemma dsu_inv_init: "dsu_inv n (DSU_init n)"
proof -
  have r: "ranked (\<lambda>i. 0) [0..<n]"
    by (simp add: ranked_def)
  have "root_of [0..<n] i r \<longleftrightarrow> i < n \<and> r = i" for i r
    by (auto intro: root_of.here elim: root_of.cases)
  then have "{i. root_of [0..<n] i r} = {r}" if "r < n" for r
    using that by auto
  with r show ?thesis
    by (auto simp: dsu_inv_def DSU_init_def forest_def)
qed

subsection \<open>Loops\<close>

lemma for_each_inv:
  assumes "P s0" and "\<And>x s. x \<in> set xs \<Longrightarrow> P s \<Longrightarrow> \<exists>s'. body x s = Some (Inr s') \<and> P s'"
  shows "\<exists>s'. for_each xs body s0 = Some (Inr s') \<and> P s'"
  using assms
proof (induction xs arbitrary: s0)
  case Nil
  then show ?case by simp
next
  case (Cons x xs)
  from Cons.prems obtain s1 where s1: "body x s0 = Some (Inr s1)" "P s1"
    by (meson list.set_intros(1))
  have "\<exists>s'. for_each xs body s1 = Some (Inr s') \<and> P s'"
    by (rule Cons.IH [OF s1(2)]) (auto intro: Cons.prems(2))
  with s1 show ?case by simp
qed

lemma for_each_upt:
  assumes "P m s0" and "\<And>i s. m \<le> i \<Longrightarrow> i < n \<Longrightarrow> P i s \<Longrightarrow> \<exists>s'. body i s = Some (Inr s') \<and> P (Suc i) s'"
    and "m \<le> n"
  shows "\<exists>s'. for_each [m..<n] body s0 = Some (Inr s') \<and> P n s'"
  using assms
proof (induction "n - m" arbitrary: m s0)
  case 0
  then show ?case by simp
next
  case (Suc d)
  then have m: "m < n" by simp
  with Suc.prems obtain s1 where s1: "body m s0 = Some (Inr s1)" "P (Suc m) s1"
    by (meson le_refl)
  have "\<exists>s'. for_each [Suc m..<n] body s1 = Some (Inr s') \<and> P n s'"
  proof (rule Suc.hyps(1) [OF _ s1(2)])
    show "d = n - Suc m" using Suc.hyps(2) by simp
    show "Suc m \<le> n" using m by simp
    show "\<exists>s'. body i s = Some (Inr s') \<and> P (Suc i) s'" if "Suc m \<le> i" "i < n" "P i s" for i s
      using that by (intro Suc.prems(2)) simp_all
  qed
  with s1 m show ?case
    by (simp add: upt_conv_Cons)
qed

text \<open>
  C10. On a forest made for \<open>n\<close> indices, every sequence of calls of \<^verbatim>\<open>find\<close> and
  \<^verbatim>\<open>union\<close> on indices below \<open>n\<close> returns, and leaves parent pointers that form a
  forest (some rank decreases along every pointer, so no pointers form a cycle):
  \<^verbatim>\<open>find\<close> returns on every index, and the size recorded at a root is the number of
  indices \<^verbatim>\<open>find\<close> resolves to that root.
\<close>

theorem dsu_calls_keep_forest:
  assumes "\<forall>c \<in> set calls. in_range n c"
  shows "\<exists>s. run_calls n calls = Some (Inr s) \<and>
           length (parent s) = n \<and> length (size_d s) = n \<and> forest (parent s) \<and>
           (\<forall>i < n. \<exists>s' r. DSU_find s i = Some (Inr (s', r))) \<and>
           (\<forall>r < n. parent s ! r = r \<longrightarrow>
              size_d s ! r = card {i. i < n \<and> find_root s i = Some r})"
proof -
  have step: "\<exists>s'. run_call c s = Some (Inr s') \<and> dsu_inv n s'"
    if "c \<in> set calls" "dsu_inv n s" for c s
  proof (cases c)
    case (Find a)
    with that assms have "a < n" by auto
    from DSU_find_inv [OF that(2) this] show ?thesis
      by (auto simp: Find)
  next
    case (Union a b)
    with that assms have "a < n" "b < n" by auto
    from DSU_union_inv [OF that(2) this] show ?thesis
      by (simp add: Union)
  qed
  obtain s where s: "run_calls n calls = Some (Inr s)" "dsu_inv n s"
    unfolding run_calls_def
    using for_each_inv [of "dsu_inv n" "DSU_init n" calls run_call] step dsu_inv_init
    by blast
  have len: "length (parent s) = n"
    using s(2) by (simp add: dsu_inv_def)
  have "{i. i < n \<and> find_root s i = Some r} = {i. root_of (parent s) i r}" for r
    using find_root_iff [OF s(2)] root_of_bounds [of "parent s" _ r] len by auto
  moreover have "\<forall>i < n. \<exists>s' r. DSU_find s i = Some (Inr (s', r))"
    using DSU_find_inv [OF s(2)] by blast
  ultimately show ?thesis
    using s by (auto simp: dsu_inv_def)
qed

theorem dsu_calls_keep_forest_witness:
  "in_range 3 (Union 0 1) \<and> in_range 3 (Find 1) \<and> in_range 3 (Union 2 1) \<and>
   in_range 3 (Find 0) \<and>
   (\<exists>s. run_calls 3 [Union 0 1, Find 1, Union 2 1, Find 0] = Some (Inr s) \<and>
      length (parent s) = 3 \<and> length (size_d s) = 3 \<and> forest (parent s) \<and>
      (\<forall>i < 3. \<exists>s' r. DSU_find s i = Some (Inr (s', r))) \<and>
      (\<forall>r < 3. parent s ! r = r \<longrightarrow>
         size_d s ! r = card {i. i < 3 \<and> find_root s i = Some r}))"
  using dsu_calls_keep_forest [of "[Union 0 1, Find 1, Union 2 1, Find 0]" 3]
  by simp

section \<open>Properties of detect\_duplicates\<close>

lemma union_block_inv:
  assumes "dsu_inv (length df) dsu" "\<forall>i \<in> set indices. i < length df"
  shows "\<exists>dsu'. union_block score df indices dsu = Some (Inr dsu') \<and> dsu_inv (length df) dsu'"
proof (cases "length indices < 2")
  case True
  with assms show ?thesis
    by (simp add: union_block_def)
next
  case False
  define k where "k = length indices"
  have inner: "\<exists>s'. for_each [i + 1..<k] (\<lambda>j dsu.
                   if NAME_SIMILARITY_THRESHOLD \<le> score (map (\<lambda>i. Name_norm (df ! i)) indices ! i)
                        (map (\<lambda>i. Name_norm (df ! i)) indices ! j)
                   then DSU_union dsu (indices ! i) (indices ! j)
                   else Some (Inr dsu)) s = Some (Inr s') \<and> dsu_inv (length df) s'"
    if "i \<in> set [0..<k]" "dsu_inv (length df) s" for i s
  proof (rule for_each_inv [where P = "dsu_inv (length df)"])
    show "dsu_inv (length df) s" by (rule that(2))
  next
    fix j s
    assume j: "j \<in> set [i + 1..<k]" and s: "dsu_inv (length df) s"
    from that(1) j assms(2) have "indices ! i < length df" "indices ! j < length df"
      by (simp_all add: k_def)
    from DSU_union_inv [OF s this] s
    show "\<exists>s'. (if NAME_SIMILARITY_THRESHOLD \<le> score (map (\<lambda>i. Name_norm (df ! i)) indices ! i)
                        (map (\<lambda>i. Name_norm (df ! i)) indices ! j)
           then DSU_union s (indices ! i) (indices ! j) else Some (Inr s)) = Some (Inr s') \<and>
           dsu_inv (length df) s'"
      by auto
  qed
  have "\<exists>s'. for_each [0..<k] (\<lambda>i. for_each [i + 1..<k] (\<lambda>j dsu.
                   if NAME_SIMILARITY_THRESHOLD \<le> score (map (\<lambda>i. Name_norm (df ! i)) indices ! i)
                        (map (\<lambda>i. Name_norm (df ! i)) indices ! j)
                   then DSU_union dsu (indices ! i) (indices ! j)
                   else Some (Inr dsu))) dsu = Some (Inr s') \<and> dsu_inv (length df) s'"
    by (rule for_each_inv [where P = "dsu_inv (length df)"]) (rule assms(1), rule inner)
  moreover have "\<not> (\<exists>i \<in> set indices. length df \<le> i)"
    using assms(2) by auto
  ultimately show ?thesis
    using False by (simp add: union_block_def k_def Let_def)
qed

lemma cluster_records_inv:
  "\<exists>dsu. cluster_records score df = Some (Inr dsu) \<and> dsu_inv (length df) dsu"
  unfolding cluster_records_def
proof (rule for_each_inv [where P = "dsu_inv (length df)"])
  show "dsu_inv (length df) (DSU_init (length df))" by (rule dsu_inv_init)
next
  fix b s
  assume b: "b \<in> set (build_blocks df)" and s: "dsu_inv (length df) s"
  obtain k indices where kb: "b = (k, indices)" by (cases b)
  with b have "\<forall>i \<in> set indices. i < length df"
    using build_blocks_indices by blast
  from union_block_inv [OF s this]
  show "\<exists>s'. (case b of (_, indices) \<Rightarrow> union_block score df indices) s = Some (Inr s') \<and>
      dsu_inv (length df) s'"
    by (simp add: kb)
qed

subsection \<open>Counting the sets\<close>

lemma seen_Suc:
  "card {i. i < Suc m \<and> root_of p i r} =
     (if root_of p m r then card {i. i < m \<and> root_of p i r} + 1 else card {i. i < m \<and> root_of p i r})"
proof (cases "root_of p m r")
  case True
  then have "{i. i < Suc m \<and> root_of p i r} = insert m {i. i < m \<and> root_of p i r}"
    by (auto simp: less_Suc_eq)
  moreover have "finite {i. i < m \<and> root_of p i r}" "m \<notin> {i. i < m \<and> root_of p i r}"
    by simp_all
  ultimately show ?thesis
    using True by simp
next
  case False
  then have "{i. i < Suc m \<and> root_of p i r} = {i. i < m \<and> root_of p i r}"
    by (auto simp: less_Suc_eq)
  with False show ?thesis by simp
qed

lemma count_step_inv:
  assumes inv: "forest_over n dsu" and same: "root_of (parent dsu) = root_of p" and m: "m < n"
    and counts: "\<And>r. counts r =
        (if card {i. i < m \<and> root_of p i r} = 0 then None else Some (card {i. i < m \<and> root_of p i r}))"
  shows "\<exists>dsu' counts'. count_step m (dsu, counts) = Some (Inr (dsu', counts')) \<and>
      forest_over n dsu' \<and> root_of (parent dsu') = root_of p \<and>
      (\<forall>r. counts' r =
        (if card {i. i < Suc m \<and> root_of p i r} = 0 then None
         else Some (card {i. i < Suc m \<and> root_of p i r})))"
proof -
  from DSU_find_forest [OF inv m] obtain s1 r1 where
    f1: "DSU_find dsu m = Some (Inr (s1, r1))" and r1: "root_of p m r1"
    and i1: "forest_over n s1" and e1: "root_of (parent s1) = root_of p"
    by (auto simp: same)
  from DSU_find_forest [OF i1 m] obtain s2 r2 where
    f2: "DSU_find s1 m = Some (Inr (s2, r2))" and r2: "root_of p m r2"
    and i2: "forest_over n s2" and e2: "root_of (parent s2) = root_of p"
    by (auto simp: e1)
  from r2 r1 have eq: "r2 = r1" by (rule root_of_fun)
  define counts' where
    "counts' = counts(r2 \<mapsto> (case counts r1 of None \<Rightarrow> 0 | Some c \<Rightarrow> c) + 1)"
  have step: "count_step m (dsu, counts) = Some (Inr (s2, counts'))"
    by (simp add: count_step_def f1 f2 counts'_def)
  have old: "(case counts r1 of None \<Rightarrow> 0 | Some c \<Rightarrow> c) = card {i. i < m \<and> root_of p i r1}"
    by (simp add: counts)
  have "counts' r =
        (if card {i. i < Suc m \<and> root_of p i r} = 0 then None
         else Some (card {i. i < Suc m \<and> root_of p i r}))" for r
  proof (cases "r = r1")
    case True
    with r1 show ?thesis
      unfolding seen_Suc by (simp add: counts'_def eq old)
  next
    case False
    with r1 have "\<not> root_of p m r"
      using root_of_fun by blast
    with False show ?thesis
      unfolding seen_Suc by (simp add: counts'_def eq counts)
  qed
  with step i2 e2 show ?thesis by blast
qed

lemma count_loop:
  assumes "forest_over n dsu0"
  shows "\<exists>dsu counts. for_each [0..<n] count_step (dsu0, Map.empty) = Some (Inr (dsu, counts)) \<and>
      forest_over n dsu \<and> root_of (parent dsu) = root_of (parent dsu0) \<and>
      (\<forall>r. counts r = (if card {i. root_of (parent dsu0) i r} = 0 then None
                       else Some (card {i. root_of (parent dsu0) i r})))"
proof -
  define p where "p = parent dsu0"
  define P where "P = (\<lambda>m (x :: DSU \<times> (nat \<rightharpoonup> nat)).
      forest_over n (fst x) \<and> root_of (parent (fst x)) = root_of p \<and>
      (\<forall>r. snd x r = (if card {i. i < m \<and> root_of p i r} = 0 then None
                      else Some (card {i. i < m \<and> root_of p i r}))))"
  have "\<exists>s'. for_each [0..<n] count_step (dsu0, Map.empty) = Some (Inr s') \<and> P n s'"
  proof (rule for_each_upt [where P = P])
    show "P 0 (dsu0, Map.empty)"
      using assms by (simp add: P_def p_def)
    show "0 \<le> n" by simp
    fix i s
    assume "i < n" "P i s"
    then show "\<exists>s'. count_step i s = Some (Inr s') \<and> P (Suc i) s'"
      using count_step_inv [of n "fst s" p i "snd s"]
      by (cases s) (auto simp: P_def)
  qed
  then obtain dsu counts where
    r: "for_each [0..<n] count_step (dsu0, Map.empty) = Some (Inr (dsu, counts))" "P n (dsu, counts)"
    by (metis surj_pair)
  from assms have "length p = n"
    by (simp add: forest_over_def p_def)
  then have seteq: "{i. i < n \<and> root_of p i r} = {i. root_of p i r}" for r
    using root_of_bounds by auto
  from r(2) have "forest_over n dsu" "root_of (parent dsu) = root_of p"
    and "\<forall>r. counts r = (if card {i. root_of p i r} = 0 then None
                       else Some (card {i. root_of p i r}))"
    unfolding P_def seteq by simp_all
  with r(1) show ?thesis
    unfolding p_def by blast
qed

subsection \<open>Numbering the sets\<close>

lemma num_invD:
  assumes "num_inv p m st"
  shows "length (cluster_ids st) = length p"
    and "0 \<le> cluster_counter st"
    and "\<And>j r. j < m \<Longrightarrow> root_of p j r \<Longrightarrow> 1 < card {i. root_of p i r} \<Longrightarrow>
           cluster_map st r = Some (cluster_ids st ! j)"
    and "\<And>j r. j < m \<Longrightarrow> root_of p j r \<Longrightarrow> \<not> 1 < card {i. root_of p i r} \<Longrightarrow>
           cluster_ids st ! j = - 1"
    and "\<And>j. m \<le> j \<Longrightarrow> j < length p \<Longrightarrow> cluster_ids st ! j = - 1"
    and "\<And>r c. cluster_map st r = Some c \<Longrightarrow>
           0 \<le> c \<and> c < cluster_counter st \<and> 1 < card {i. root_of p i r} \<and> (\<exists>j < m. root_of p j r)"
    and "\<And>r r' c. cluster_map st r = Some c \<Longrightarrow> cluster_map st r' = Some c \<Longrightarrow> r = r'"
    and "\<And>c. 0 \<le> c \<Longrightarrow> c < cluster_counter st \<Longrightarrow> \<exists>r. cluster_map st r = Some c"
    and "\<And>j c. j < m \<Longrightarrow> 0 \<le> c \<Longrightarrow> c < cluster_ids st ! j \<Longrightarrow> \<exists>j' < j. cluster_ids st ! j' = c"
proof -
  note I = assms [unfolded num_inv_def]
  show "length (cluster_ids st) = length p" using I by blast
  show "0 \<le> cluster_counter st" using I by blast
  show "cluster_map st r = Some (cluster_ids st ! j)"
    if "j < m" "root_of p j r" "1 < card {i. root_of p i r}" for j r
  proof -
    from I have "\<forall>j r. j < m \<longrightarrow> root_of p j r \<longrightarrow>
        (if 1 < card {i. root_of p i r} then cluster_map st r = Some (cluster_ids st ! j)
         else cluster_ids st ! j = - 1)" by blast
    with that show ?thesis by (metis (full_types))
  qed
  show "cluster_ids st ! j = - 1"
    if "j < m" "root_of p j r" "\<not> 1 < card {i. root_of p i r}" for j r
  proof -
    from I have "\<forall>j r. j < m \<longrightarrow> root_of p j r \<longrightarrow>
        (if 1 < card {i. root_of p i r} then cluster_map st r = Some (cluster_ids st ! j)
         else cluster_ids st ! j = - 1)" by blast
    with that show ?thesis by (metis (full_types))
  qed
  show "cluster_ids st ! j = - 1" if "m \<le> j" "j < length p" for j
    using I that by blast
  show "0 \<le> c \<and> c < cluster_counter st \<and> 1 < card {i. root_of p i r} \<and> (\<exists>j < m. root_of p j r)"
    if "cluster_map st r = Some c" for r c
    using I that by blast
  show "r = r'" if "cluster_map st r = Some c" "cluster_map st r' = Some c" for r r' c
    using I that by blast
  show "\<exists>r. cluster_map st r = Some c" if "0 \<le> c" "c < cluster_counter st" for c
    using I that by blast
  show "\<exists>j' < j. cluster_ids st ! j' = c" if "j < m" "0 \<le> c" "c < cluster_ids st ! j" for j c
    using I that by blast
qed

lemma num_invI:
  assumes "length (cluster_ids st) = length p"
    and "0 \<le> cluster_counter st"
    and "\<And>j r. j < m \<Longrightarrow> root_of p j r \<Longrightarrow> 1 < card {i. root_of p i r} \<Longrightarrow>
           cluster_map st r = Some (cluster_ids st ! j)"
    and "\<And>j r. j < m \<Longrightarrow> root_of p j r \<Longrightarrow> \<not> 1 < card {i. root_of p i r} \<Longrightarrow>
           cluster_ids st ! j = - 1"
    and "\<And>j. m \<le> j \<Longrightarrow> j < length p \<Longrightarrow> cluster_ids st ! j = - 1"
    and "\<And>r c. cluster_map st r = Some c \<Longrightarrow>
           0 \<le> c \<and> c < cluster_counter st \<and> 1 < card {i. root_of p i r} \<and> (\<exists>j < m. root_of p j r)"
    and "\<And>r r' c. cluster_map st r = Some c \<Longrightarrow> cluster_map st r' = Some c \<Longrightarrow> r = r'"
    and "\<And>c. 0 \<le> c \<Longrightarrow> c < cluster_counter st \<Longrightarrow> \<exists>r. cluster_map st r = Some c"
    and "\<And>j c. j < m \<Longrightarrow> 0 \<le> c \<Longrightarrow> c < cluster_ids st ! j \<Longrightarrow> \<exists>j' < j. cluster_ids st ! j' = c"
  shows "num_inv p m st"
  unfolding num_inv_def
proof (intro conjI allI impI)
  fix j r
  assume "j < m" "root_of p j r"
  then show "if 1 < card {i. root_of p i r} then cluster_map st r = Some (cluster_ids st ! j)
         else cluster_ids st ! j = - 1"
    using assms(3,4) by (cases "1 < card {i. root_of p i r}") simp_all
qed (use assms in blast)+

lemma num_inv_skip:
  assumes inv: "num_inv p m st" and m: "m < length p" and r: "root_of p m r"
    and single: "\<not> 1 < card {i. root_of p i r}"
  shows "num_inv p (Suc m) st"
proof (rule num_invI)
  note D = num_invD [OF inv]
  show "length (cluster_ids st) = length p" by (rule D(1))
  show "0 \<le> cluster_counter st" by (rule D(2))
  have at_m: "cluster_ids st ! m = - 1"
    using D(5) [of m] m by simp
  show "cluster_map st r' = Some (cluster_ids st ! j)"
    if "j < Suc m" "root_of p j r'" "1 < card {i. root_of p i r'}" for j r'
  proof (cases "j = m")
    case True
    with that r have "r' = r" using root_of_fun by blast
    with that single show ?thesis by simp
  next
    case False
    with that have "j < m" by simp
    with that show ?thesis by (intro D(3))
  qed
  show "cluster_ids st ! j = - 1"
    if "j < Suc m" "root_of p j r'" "\<not> 1 < card {i. root_of p i r'}" for j r'
  proof (cases "j = m")
    case True
    with at_m show ?thesis by simp
  next
    case False
    with that have "j < m" by simp
    with that show ?thesis by (intro D(4))
  qed
  show "cluster_ids st ! j = - 1" if "Suc m \<le> j" "j < length p" for j
    using D(5) [of j] that by simp
  show "0 \<le> c \<and> c < cluster_counter st \<and> 1 < card {i. root_of p i r'} \<and> (\<exists>j < Suc m. root_of p j r')"
    if "cluster_map st r' = Some c" for r' c
    using D(6) [OF that] less_Suc_eq by auto
  show "r1 = r2" if "cluster_map st r1 = Some c" "cluster_map st r2 = Some c" for r1 r2 c
    using D(7) that by blast
  show "\<exists>r'. cluster_map st r' = Some c" if "0 \<le> c" "c < cluster_counter st" for c
    using D(8) that by blast
  show "\<exists>j' < j. cluster_ids st ! j' = c" if "j < Suc m" "0 \<le> c" "c < cluster_ids st ! j" for j c
  proof (cases "j = m")
    case True
    with that at_m show ?thesis by simp
  next
    case False
    with that have "j < m" by simp
    with that show ?thesis by (intro D(9))
  qed
qed

lemma num_inv_earlier:
  assumes inv: "num_inv p m st" and c: "0 \<le> c" "c < cluster_counter st"
  shows "\<exists>j' < m. cluster_ids st ! j' = c"
proof -
  note D = num_invD [OF inv]
  from D(8) [OF c] obtain r' where r': "cluster_map st r' = Some c" by blast
  from D(6) [OF r'] obtain j' where j': "j' < m" "root_of p j' r'" "1 < card {i. root_of p i r'}"
    by blast
  from D(3) [OF j'] r' have "cluster_ids st ! j' = c" by simp
  with j' show ?thesis by blast
qed

lemma num_inv_new:
  assumes inv: "num_inv p m st" and m: "m < length p" and r: "root_of p m r"
    and multi: "1 < card {i. root_of p i r}" and new: "cluster_map st r = None"
  shows "num_inv p (Suc m)
     (st\<lparr>cluster_map := (cluster_map st)(r \<mapsto> cluster_counter st),
         cluster_counter := cluster_counter st + 1,
         cluster_ids := (cluster_ids st)[m := cluster_counter st]\<rparr>)"
    (is "num_inv p (Suc m) ?st")
proof (rule num_invI)
  note D = num_invD [OF inv]
  have ids: "cluster_ids ?st ! m = cluster_counter st" "\<And>j. j \<noteq> m \<Longrightarrow> cluster_ids ?st ! j = cluster_ids st ! j"
    using m D(1) by simp_all
  have map: "cluster_map ?st r = Some (cluster_counter st)"
    "\<And>r'. r' \<noteq> r \<Longrightarrow> cluster_map ?st r' = cluster_map st r'"
    by simp_all
  have cnt: "cluster_counter ?st = cluster_counter st + 1" by simp
  show "length (cluster_ids ?st) = length p" using D(1) by simp
  show "0 \<le> cluster_counter ?st" using D(2) by simp
  show "cluster_map ?st r' = Some (cluster_ids ?st ! j)"
    if "j < Suc m" "root_of p j r'" "1 < card {i. root_of p i r'}" for j r'
  proof (cases "j = m")
    case True
    with that r have "r' = r" using root_of_fun by blast
    with True show ?thesis by (simp only: map ids simp_thms)
  next
    case False
    with that have "j < m" by simp
    with that have old: "cluster_map st r' = Some (cluster_ids st ! j)" by (intro D(3))
    with new have "r' \<noteq> r" by auto
    with old False show ?thesis by (simp only: map ids simp_thms)
  qed
  show "cluster_ids ?st ! j = - 1"
    if "j < Suc m" "root_of p j r'" "\<not> 1 < card {i. root_of p i r'}" for j r'
  proof (cases "j = m")
    case True
    with that r have "r' = r" using root_of_fun by blast
    with that multi show ?thesis by simp
  next
    case False
    with that have "j < m" by simp
    with that have "cluster_ids st ! j = - 1" by (intro D(4))
    with False show ?thesis by (simp only: ids simp_thms)
  qed
  show "cluster_ids ?st ! j = - 1" if "Suc m \<le> j" "j < length p" for j
  proof -
    from that have "j \<noteq> m" "m \<le> j" by simp_all
    with that D(5) [of j] show ?thesis by (simp only: ids simp_thms)
  qed
  show "0 \<le> c \<and> c < cluster_counter ?st \<and> 1 < card {i. root_of p i r'} \<and> (\<exists>j < Suc m. root_of p j r')"
    if "cluster_map ?st r' = Some c" for r' c
  proof (cases "r' = r")
    case True
    with that map(1) have "c = cluster_counter st" by simp
    with True D(2) multi r show ?thesis
      unfolding cnt by auto
  next
    case False
    with that have "cluster_map st r' = Some c" by (simp only: map simp_thms)
    from D(6) [OF this] show ?thesis
      unfolding cnt using less_Suc_eq by auto
  qed
  show "r1 = r2" if "cluster_map ?st r1 = Some c" "cluster_map ?st r2 = Some c" for r1 r2 c
  proof -
    have a: "c = cluster_counter st" if "cluster_map ?st r' = Some c" "r' = r" for r'
      using that map(1) by simp
    have b: "c < cluster_counter st \<and> cluster_map st r' = Some c"
      if "cluster_map ?st r' = Some c" "r' \<noteq> r" for r'
    proof -
      from that have "cluster_map st r' = Some c" by (simp only: map simp_thms)
      with D(6) [OF this] show ?thesis by simp
    qed
    show ?thesis
    proof (cases "r1 = r")
      case True
      show ?thesis
      proof (cases "r2 = r")
        case r2: True
        with True show ?thesis by simp
      next
        case False
        with a [OF that(1) True] b [OF that(2) False] show ?thesis by simp
      qed
    next
      case False
      show ?thesis
      proof (cases "r2 = r")
        case True
        with a [OF that(2) True] b [OF that(1) False] show ?thesis by simp
      next
        case r2: False
        from b [OF that(1) False] b [OF that(2) r2] D(7) show ?thesis by blast
      qed
    qed
  qed
  show "\<exists>r'. cluster_map ?st r' = Some c" if "0 \<le> c" "c < cluster_counter ?st" for c
  proof (cases "c = cluster_counter st")
    case True
    with map(1) show ?thesis by blast
  next
    case False
    with that have "c < cluster_counter st" by simp
    from D(8) [OF that(1) this] obtain r' where r': "cluster_map st r' = Some c" by blast
    with new have "r' \<noteq> r" by auto
    with r' have "cluster_map ?st r' = Some c" by (simp only: map simp_thms)
    then show ?thesis by blast
  qed
  show "\<exists>j' < j. cluster_ids ?st ! j' = c" if "j < Suc m" "0 \<le> c" "c < cluster_ids ?st ! j" for j c
  proof (cases "j = m")
    case True
    with that have "c < cluster_counter st" by (simp only: ids simp_thms)
    from num_inv_earlier [OF inv that(2) this] obtain j' where "j' < m" "cluster_ids st ! j' = c"
      by blast
    with True show ?thesis
      using ids(2) [of j'] by auto
  next
    case False
    with that have j: "j < m" "c < cluster_ids st ! j"
      using ids(2) [of j] by simp_all
    from D(9) [OF j(1) that(2) j(2)] obtain j' where "j' < j" "cluster_ids st ! j' = c" by blast
    with j show ?thesis
      using ids(2) [of j'] by auto
  qed
qed

lemma num_inv_old:
  assumes inv: "num_inv p m st" and m: "m < length p" and r: "root_of p m r"
    and multi: "1 < card {i. root_of p i r}" and old: "cluster_map st r = Some k"
  shows "num_inv p (Suc m) (st\<lparr>cluster_ids := (cluster_ids st)[m := k]\<rparr>)"
    (is "num_inv p (Suc m) ?st")
proof (rule num_invI)
  note D = num_invD [OF inv]
  have ids: "cluster_ids ?st ! m = k" "\<And>j. j \<noteq> m \<Longrightarrow> cluster_ids ?st ! j = cluster_ids st ! j"
    using m D(1) by simp_all
  have map: "cluster_map ?st = cluster_map st" and cnt: "cluster_counter ?st = cluster_counter st"
    by simp_all
  show "length (cluster_ids ?st) = length p" using D(1) by simp
  show "0 \<le> cluster_counter ?st" using D(2) by simp
  show "cluster_map ?st r' = Some (cluster_ids ?st ! j)"
    if "j < Suc m" "root_of p j r'" "1 < card {i. root_of p i r'}" for j r'
  proof (cases "j = m")
    case True
    with that r have "r' = r" using root_of_fun by blast
    with True old show ?thesis by (simp only: map ids simp_thms)
  next
    case False
    with that have "j < m" by simp
    with that have "cluster_map st r' = Some (cluster_ids st ! j)" by (intro D(3))
    with False show ?thesis by (simp only: map ids simp_thms)
  qed
  show "cluster_ids ?st ! j = - 1"
    if "j < Suc m" "root_of p j r'" "\<not> 1 < card {i. root_of p i r'}" for j r'
  proof (cases "j = m")
    case True
    with that r have "r' = r" using root_of_fun by blast
    with that multi show ?thesis by simp
  next
    case False
    with that have "j < m" by simp
    with that have "cluster_ids st ! j = - 1" by (intro D(4))
    with False show ?thesis by (simp only: ids simp_thms)
  qed
  show "cluster_ids ?st ! j = - 1" if "Suc m \<le> j" "j < length p" for j
  proof -
    from that have "j \<noteq> m" "m \<le> j" by simp_all
    with that D(5) [of j] show ?thesis by (simp only: ids simp_thms)
  qed
  show "0 \<le> c \<and> c < cluster_counter ?st \<and> 1 < card {i. root_of p i r'} \<and> (\<exists>j < Suc m. root_of p j r')"
    if "cluster_map ?st r' = Some c" for r' c
  proof -
    from that have "cluster_map st r' = Some c" by (simp only: map simp_thms)
    from D(6) [OF this] show ?thesis
      unfolding cnt using less_Suc_eq by auto
  qed
  show "r1 = r2" if "cluster_map ?st r1 = Some c" "cluster_map ?st r2 = Some c" for r1 r2 c
    using that D(7) unfolding map by blast
  show "\<exists>r'. cluster_map ?st r' = Some c" if "0 \<le> c" "c < cluster_counter ?st" for c
    using that D(8) unfolding map cnt by blast
  show "\<exists>j' < j. cluster_ids ?st ! j' = c" if "j < Suc m" "0 \<le> c" "c < cluster_ids ?st ! j" for j c
  proof (cases "j = m")
    case True
    with that have "c < k" by (simp only: ids simp_thms)
    moreover from D(6) [OF old] have "k < cluster_counter st" by simp
    ultimately have "c < cluster_counter st" by simp
    from num_inv_earlier [OF inv that(2) this] obtain j' where "j' < m" "cluster_ids st ! j' = c"
      by blast
    with True show ?thesis
      using ids(2) [of j'] by auto
  next
    case False
    with that have j: "j < m" "c < cluster_ids st ! j"
      using ids(2) [of j] by simp_all
    from D(9) [OF j(1) that(2) j(2)] obtain j' where "j' < j" "cluster_ids st ! j' = c" by blast
    with j show ?thesis
      using ids(2) [of j'] by auto
  qed
qed

lemma assign_step_inv:
  assumes inv: "forest_over n dsu" and same: "root_of (parent dsu) = root_of p" and len: "length p = n"
    and m: "m < n"
    and counts: "\<And>r. counts r =
        (if card {i. root_of p i r} = 0 then None else Some (card {i. root_of p i r}))"
    and num: "num_inv p m st"
  shows "\<exists>dsu' st'. assign_step counts m (dsu, st) = Some (Inr (dsu', st')) \<and>
      forest_over n dsu' \<and> root_of (parent dsu') = root_of p \<and> num_inv p (Suc m) st'"
proof -
  from DSU_find_forest [OF inv m] obtain s1 r where
    f: "DSU_find dsu m = Some (Inr (s1, r))" and r: "root_of p m r"
    and i1: "forest_over n s1" and e1: "root_of (parent s1) = root_of p"
    by (auto simp: same)
  have "m \<in> {i. root_of p i r}" using r by simp
  then have "card {i. root_of p i r} \<noteq> 0"
    using root_of_finite [of p r] by (metis card_0_eq empty_iff)
  then have c: "counts r = Some (card {i. root_of p i r})"
    by (simp add: counts)
  have ml: "m < length p" "\<not> length (cluster_ids st) \<le> m"
    using m len num_invD(1) [OF num] by simp_all
  show ?thesis
  proof (cases "1 < card {i. root_of p i r}")
    case False
    then have "assign_step counts m (dsu, st) = Some (Inr (s1, st))"
      by (simp add: assign_step_def f c)
    moreover have "num_inv p (Suc m) st"
      by (rule num_inv_skip [OF num ml(1) r False])
    ultimately show ?thesis
      using i1 e1 by blast
  next
    case True
    show ?thesis
    proof (cases "cluster_map st r")
      case None
      then have "assign_step counts m (dsu, st) = Some (Inr (s1,
          st\<lparr>cluster_map := (cluster_map st)(r \<mapsto> cluster_counter st),
             cluster_counter := cluster_counter st + 1,
             cluster_ids := (cluster_ids st)[m := cluster_counter st]\<rparr>))"
        using True ml(2) by (simp add: assign_step_def f c)
      moreover note num_inv_new [OF num ml(1) r True None]
      ultimately show ?thesis
        using i1 e1 by blast
    next
      case (Some k)
      then have "assign_step counts m (dsu, st) =
          Some (Inr (s1, st\<lparr>cluster_ids := (cluster_ids st)[m := k]\<rparr>))"
        using True ml(2) by (simp add: assign_step_def f c)
      moreover note num_inv_old [OF num ml(1) r True Some]
      ultimately show ?thesis
        using i1 e1 by blast
    qed
  qed
qed

lemma num_inv_start:
  "num_inv p 0 \<lparr>cluster_map = Map.empty, cluster_ids = replicate (length p) (- 1), cluster_counter = 0\<rparr>"
  by (rule num_invI) simp_all

lemma assign_loop:
  assumes "forest_over n dsu" "root_of (parent dsu) = root_of p" "length p = n"
    and counts: "\<And>r. counts r =
        (if card {i. root_of p i r} = 0 then None else Some (card {i. root_of p i r}))"
  shows "\<exists>dsu' st. for_each [0..<n] (assign_step counts)
        (dsu, \<lparr>cluster_map = Map.empty, cluster_ids = replicate n (- 1), cluster_counter = 0\<rparr>) =
          Some (Inr (dsu', st)) \<and> num_inv p n st"
proof -
  define P where "P = (\<lambda>m (x :: DSU \<times> numbering).
      forest_over n (fst x) \<and> root_of (parent (fst x)) = root_of p \<and> num_inv p m (snd x))"
  have "\<exists>s'. for_each [0..<n] (assign_step counts)
        (dsu, \<lparr>cluster_map = Map.empty, cluster_ids = replicate n (- 1), cluster_counter = 0\<rparr>) =
          Some (Inr s') \<and> P n s'"
  proof (rule for_each_upt [where P = P])
    show "P 0 (dsu, \<lparr>cluster_map = Map.empty, cluster_ids = replicate n (- 1), cluster_counter = 0\<rparr>)"
      using assms(1,2) num_inv_start [of p] by (simp add: P_def assms(3))
    show "0 \<le> n" by simp
    fix i s
    assume "i < n" "P i s"
    then show "\<exists>s'. assign_step counts i s = Some (Inr s') \<and> P (Suc i) s'"
      using assign_step_inv [of n "fst s" p i counts "snd s"] assms(3) counts
      by (cases s) (auto simp: P_def)
  qed
  then show ?thesis
    by (auto simp: P_def)
qed

text \<open>Lines 88 to 96 return, and number the sets of the forest.\<close>

lemma num_inv_well_numbered:
  assumes f: "forest_over n dsu" and num: "num_inv (parent dsu) n st"
  shows "well_numbered n (\<lambda>i j. find_root dsu i = find_root dsu j) (cluster_ids st)"
proof -
  define p where "p = parent dsu"
  note D = num_invD [OF num [folded p_def]]
  have len: "length p = n"
    using f by (simp add: forest_over_def p_def)
  from f obtain h where h: "ranked h p"
    by (auto simp: forest_over_def forest_def p_def)
  have root: "\<exists>r. root_of p i r" if "i < n" for i
    using root_of_total [OF h] that len by blast
  have fr: "find_root dsu i = Some r \<longleftrightarrow> root_of p i r" if "i < n" for i r
    using find_root_forest [OF f that] by (simp add: p_def)
  have cls: "{j. j < n \<and> find_root dsu i = find_root dsu j} = {j. root_of p j r}"
    if "i < n" "root_of p i r" for i r
  proof -
    from that have "find_root dsu i = Some r" by (simp add: fr)
    moreover have "j < n \<and> Some r = find_root dsu j \<longleftrightarrow> root_of p j r" for j
      using fr [of j r] root_of_bounds [of p j r] len by (auto simp: eq_commute)
    ultimately show ?thesis by simp
  qed
  have same: "find_root dsu i = find_root dsu j \<longleftrightarrow> r = r'"
    if "i < n" "j < n" "root_of p i r" "root_of p j r'" for i j r r'
  proof -
    from that have "find_root dsu i = Some r" "find_root dsu j = Some r'"
      by (simp_all add: fr)
    then show ?thesis by simp
  qed
  have ids: "0 \<le> cluster_ids st ! i \<longleftrightarrow> 1 < card {j. root_of p j r}"
    and single: "\<not> 1 < card {j. root_of p j r} \<Longrightarrow> cluster_ids st ! i = - 1"
    and multi: "1 < card {j. root_of p j r} \<Longrightarrow> cluster_map st r = Some (cluster_ids st ! i)"
    if "i < n" "root_of p i r" for i r
  proof -
    show s: "cluster_ids st ! i = - 1" if "\<not> 1 < card {j. root_of p j r}"
      using D(4) [OF \<open>i < n\<close> \<open>root_of p i r\<close> that] .
    show m: "cluster_map st r = Some (cluster_ids st ! i)" if "1 < card {j. root_of p j r}"
      using D(3) [OF \<open>i < n\<close> \<open>root_of p i r\<close> that] .
    show "0 \<le> cluster_ids st ! i \<longleftrightarrow> 1 < card {j. root_of p j r}"
    proof (cases "1 < card {j. root_of p j r}")
      case True
      with D(6) [OF m [OF True]] show ?thesis by simp
    next
      case False
      with s [OF False] show ?thesis by simp
    qed
  qed
  have c1: "length (cluster_ids st) = n"
    using D(1) len by simp
  have c2: "\<forall>i < n. if 1 < card {j. j < n \<and> find_root dsu i = find_root dsu j}
          then 0 \<le> cluster_ids st ! i else cluster_ids st ! i = - 1"
  proof (intro allI impI)
    fix i
    assume i: "i < n"
    then obtain r where r: "root_of p i r" using root by blast
    show "if 1 < card {j. j < n \<and> find_root dsu i = find_root dsu j} then 0 \<le> cluster_ids st ! i
          else cluster_ids st ! i = - 1"
      unfolding cls [OF i r] using ids [OF i r] single [OF i r] by simp
  qed
  have c3: "\<forall>i < n. \<forall>j < n. 0 \<le> cluster_ids st ! i \<longrightarrow>
      (cluster_ids st ! i = cluster_ids st ! j \<longleftrightarrow> find_root dsu i = find_root dsu j)"
  proof (intro allI impI)
    fix i j
    assume i: "i < n" and j: "j < n" and pos: "0 \<le> cluster_ids st ! i"
    obtain r r' where r: "root_of p i r" "root_of p j r'"
      using root i j by blast
    from pos have mi: "1 < card {j. root_of p j r}"
      using ids [OF i r(1)] by simp
    show "cluster_ids st ! i = cluster_ids st ! j \<longleftrightarrow> find_root dsu i = find_root dsu j"
      unfolding same [OF i j r]
    proof
      assume eq: "cluster_ids st ! i = cluster_ids st ! j"
      with pos have "1 < card {j. root_of p j r'}"
        using ids [OF j r(2)] by simp
      from multi [OF i r(1) mi] multi [OF j r(2) this] eq D(7) show "r = r'"
        by simp
    next
      assume "r = r'"
      with multi [OF i r(1) mi] multi [OF j r(2)] mi
      show "cluster_ids st ! i = cluster_ids st ! j" by simp
    qed
  qed
  have c4: "\<forall>i < n. \<forall>c. 0 \<le> c \<longrightarrow> c < cluster_ids st ! i \<longrightarrow> (\<exists>j < i. cluster_ids st ! j = c)"
    using D(9) by blast
  from c1 c2 c3 c4 show ?thesis
    unfolding well_numbered_def by (intro conjI)
qed

lemma assign_clusters_numbers:
  assumes "forest_over n dsu"
  shows "\<exists>ids. assign_clusters n dsu = Some (Inr ids) \<and>
      well_numbered n (\<lambda>i j. find_root dsu i = find_root dsu j) ids"
proof -
  from count_loop [OF assms] obtain dsu1 counts where
    c: "for_each [0..<n] count_step (dsu, Map.empty) = Some (Inr (dsu1, counts))"
    "forest_over n dsu1" "root_of (parent dsu1) = root_of (parent dsu)"
    "\<And>r. counts r = (if card {i. root_of (parent dsu) i r} = 0 then None
                       else Some (card {i. root_of (parent dsu) i r}))"
    by blast
  have len: "length (parent dsu) = n"
    using assms by (simp add: forest_over_def)
  from assign_loop [OF c(2,3) len c(4)] obtain dsu2 st where
    a: "for_each [0..<n] (assign_step counts)
        (dsu1, \<lparr>cluster_map = Map.empty, cluster_ids = replicate n (- 1), cluster_counter = 0\<rparr>) =
          Some (Inr (dsu2, st))" "num_inv (parent dsu) n st"
    by blast
  have "assign_clusters n dsu = Some (Inr (cluster_ids st))"
    by (simp add: assign_clusters_def c(1) a(1))
  with num_inv_well_numbered [OF assms a(2)] show ?thesis by blast
qed

lemma well_numbered_unique:
  assumes a: "well_numbered n same ids" and b: "well_numbered n same ids'"
  shows "ids = ids'"
proof (rule nth_equalityI)
  from a b show "length ids = length ids'"
    by (simp add: well_numbered_def)
next
  fix i
  assume "i < length ids"
  with a have "i < n" by (simp add: well_numbered_def)
  then show "ids ! i = ids' ! i"
  proof (induction i rule: less_induct)
    case (less i)
    note i = \<open>i < n\<close>
    have A1: "if 1 < card {j. j < n \<and> same i j} then 0 \<le> ids ! i else ids ! i = - 1"
      and B1: "if 1 < card {j. j < n \<and> same i j} then 0 \<le> ids' ! i else ids' ! i = - 1"
      using a b i unfolding well_numbered_def by blast+
    have A2: "ids ! i = ids ! j \<longleftrightarrow> same i j" if "j < n" "0 \<le> ids ! i" for j
      using a i that unfolding well_numbered_def by blast
    have B2: "ids' ! i = ids' ! j \<longleftrightarrow> same i j" if "j < n" "0 \<le> ids' ! i" for j
      using b i that unfolding well_numbered_def by blast
    have A3: "\<exists>j < i. ids ! j = c" if "0 \<le> c" "c < ids ! i" for c
      using a i that unfolding well_numbered_def by blast
    have B3: "\<exists>j < i. ids' ! j = c" if "0 \<le> c" "c < ids' ! i" for c
      using b i that unfolding well_numbered_def by blast
    show ?case
    proof (cases "1 < card {j. j < n \<and> same i j}")
      case False
      with A1 B1 show ?thesis by simp
    next
      case True
      with A1 B1 have pos: "0 \<le> ids ! i" "0 \<le> ids' ! i" by simp_all
      show ?thesis
      proof (cases "\<exists>j < i. same i j")
        case True
        then obtain j where j: "j < i" "same i j" by blast
        with i have jn: "j < n" by simp
        from A2 [OF jn pos(1)] B2 [OF jn pos(2)] j have "ids ! i = ids ! j" "ids' ! i = ids' ! j"
          by simp_all
        with less.IH [OF j(1) jn] show ?thesis by simp
      next
        case False
        have "\<not> ids ! i < ids' ! i"
        proof
          assume "ids ! i < ids' ! i"
          from B3 [OF pos(1) this] obtain j where j: "j < i" "ids' ! j = ids ! i" by blast
          with i have jn: "j < n" by simp
          from less.IH [OF j(1) jn] j have "ids ! i = ids ! j" by simp
          with A2 [OF jn pos(1)] have "same i j" by simp
          with False j show False by blast
        qed
        moreover have "\<not> ids' ! i < ids ! i"
        proof
          assume "ids' ! i < ids ! i"
          from A3 [OF pos(2) this] obtain j where j: "j < i" "ids ! j = ids' ! i" by blast
          with i have jn: "j < n" by simp
          from less.IH [OF j(1) jn] j have "ids' ! i = ids' ! j" by simp
          with B2 [OF jn pos(2)] have "same i j" by simp
          with False j show False by blast
        qed
        ultimately show ?thesis by simp
      qed
    qed
  qed
qed

lemma detect_duplicates_numbers:
  "\<exists>dsu ids. cluster_records score df = Some (Inr dsu) \<and> dsu_inv (length df) dsu \<and>
      detect_duplicates score df = Some (Inr (map Some ids)) \<and>
      well_numbered (length df) (\<lambda>i j. find_root dsu i = find_root dsu j) ids"
proof -
  from cluster_records_inv obtain dsu where
    d: "cluster_records score df = Some (Inr dsu)" "dsu_inv (length df) dsu"
    by blast
  from assign_clusters_numbers [OF dsu_inv_forest [OF d(2)]] obtain ids where
    i: "assign_clusters (length df) dsu = Some (Inr ids)"
    "well_numbered (length df) (\<lambda>i j. find_root dsu i = find_root dsu j) ids"
    by blast
  from i(2) have "length ids = length df"
    by (simp add: well_numbered_def)
  then have "detect_duplicates score df = Some (Inr (map Some ids))"
    by (simp add: detect_duplicates_def d(1) i(1))
  with d i(2) show ?thesis by blast
qed

text \<open>
  C1, as amended. \<^verbatim>\<open>detect_duplicates\<close> returns for every frame. A record whose set in
  the forest has more than one member gets a number from \<open>0\<close>, and every other record
  gets \<open>- 1\<close>, a number and not a null value. Two records of one set get one number,
  records of two sets two, and each number is first given after all smaller numbers:
  the sets are numbered \<open>0, 1, 2, \<dots>\<close> in the order the ascending scan meets them.
\<close>

theorem detect_duplicates_cluster_ids:
  "\<exists>dsu ids. cluster_records score df = Some (Inr dsu) \<and>
      detect_duplicates score df = Some (Inr (map Some ids)) \<and>
      length ids = length df \<and>
      (\<forall>i < length df. 1 \<le> set_size dsu (length df) i) \<and>
      (\<forall>i < length df. if 1 < set_size dsu (length df) i then 0 \<le> ids ! i else ids ! i = - 1) \<and>
      (\<forall>i < length df. \<forall>j < length df. 0 \<le> ids ! i \<longrightarrow>
         (ids ! i = ids ! j \<longleftrightarrow> find_root dsu i = find_root dsu j)) \<and>
      (\<forall>i < length df. \<forall>c. 0 \<le> c \<longrightarrow> c < ids ! i \<longrightarrow> (\<exists>j < i. ids ! j = c))"
proof -
  from detect_duplicates_numbers [of score df] obtain dsu ids where
    d: "cluster_records score df = Some (Inr dsu)"
    "detect_duplicates score df = Some (Inr (map Some ids))"
    and w: "well_numbered (length df) (\<lambda>i j. find_root dsu i = find_root dsu j) ids"
    by blast
  have "1 \<le> set_size dsu (length df) i" if "i < length df" for i
  proof -
    have "i \<in> {j. j < length df \<and> find_root dsu i = find_root dsu j}"
      using that by simp
    moreover have "finite {j. j < length df \<and> find_root dsu i = find_root dsu j}"
      by simp
    ultimately have "card {j. j < length df \<and> find_root dsu i = find_root dsu j} \<noteq> 0"
      by (metis card_0_eq empty_iff)
    then show ?thesis unfolding set_size_def by linarith
  qed
  with d w show ?thesis
    unfolding well_numbered_def set_size_def by blast
qed

theorem detect_duplicates_cluster_ids_witness:
  "(1 :: nat) < length two_rows \<and>
   (\<exists>dsu ids. cluster_records exact_match two_rows = Some (Inr dsu) \<and>
      detect_duplicates exact_match two_rows = Some (Inr (map Some ids)) \<and>
      length ids = length two_rows \<and>
      (\<forall>i < length two_rows. 1 \<le> set_size dsu (length two_rows) i) \<and>
      (\<forall>i < length two_rows.
         if 1 < set_size dsu (length two_rows) i then 0 \<le> ids ! i else ids ! i = - 1) \<and>
      (\<forall>i < length two_rows. \<forall>j < length two_rows. 0 \<le> ids ! i \<longrightarrow>
         (ids ! i = ids ! j \<longleftrightarrow> find_root dsu i = find_root dsu j)) \<and>
      (\<forall>i < length two_rows. \<forall>c. 0 \<le> c \<longrightarrow> c < ids ! i \<longrightarrow> (\<exists>j < i. ids ! j = c)))"
proof (rule conjI)
  show "(1 :: nat) < length two_rows"
    by (simp add: two_rows_def)
  show "\<exists>dsu ids. cluster_records exact_match two_rows = Some (Inr dsu) \<and>
      detect_duplicates exact_match two_rows = Some (Inr (map Some ids)) \<and>
      length ids = length two_rows \<and>
      (\<forall>i < length two_rows. 1 \<le> set_size dsu (length two_rows) i) \<and>
      (\<forall>i < length two_rows.
         if 1 < set_size dsu (length two_rows) i then 0 \<le> ids ! i else ids ! i = - 1) \<and>
      (\<forall>i < length two_rows. \<forall>j < length two_rows. 0 \<le> ids ! i \<longrightarrow>
         (ids ! i = ids ! j \<longleftrightarrow> find_root dsu i = find_root dsu j)) \<and>
      (\<forall>i < length two_rows. \<forall>c. 0 \<le> c \<longrightarrow> c < ids ! i \<longrightarrow> (\<exists>j < i. ids ! j = c))"
    by (rule detect_duplicates_cluster_ids)
qed

text \<open>
  C1 as the specification states it fails: a record alone in its set gets the number
  \<open>- 1\<close>, not a null value.
\<close>

theorem detect_duplicates_single_counterexample:
  "detect_duplicates no_match
     [\<lparr>Name_norm = ''ann lee'', DOB_parsed = None, Gender_norm = ''female'', Soundex = ''A500''\<rparr>] =
   Some (Inr [Some (- 1)])"
  by code_simp

lemma well_numbered_cong:
  assumes "\<forall>i < n. \<forall>j < n. same i j \<longleftrightarrow> same' i j" and "well_numbered n same ids"
  shows "well_numbered n same' ids"
proof -
  have "{j. j < n \<and> same i j} = {j. j < n \<and> same' i j}" if "i < n" for i
    using assms(1) that by auto
  with assms show ?thesis
    unfolding well_numbered_def by simp
qed

text \<open>
  C6. The identifiers are a function of the input, so a second run gives them again.
  Lines 88 to 96 return the same identifiers on two forests over the same records
  that have the same sets, whatever their parent pointers and roots are: the
  numbering depends on the partition and the ascending scan only, not on the unions
  that made the forest.
\<close>

theorem cluster_ids_depend_on_partition:
  assumes "forest_over n s1" "forest_over n s2"
    and "\<forall>i < n. \<forall>j < n. find_root s1 i = find_root s1 j \<longleftrightarrow> find_root s2 i = find_root s2 j"
  shows "\<exists>ids. assign_clusters n s1 = Some (Inr ids) \<and> assign_clusters n s2 = Some (Inr ids)"
proof -
  from assign_clusters_numbers [OF assms(1)] obtain ids1 where
    a: "assign_clusters n s1 = Some (Inr ids1)"
    "well_numbered n (\<lambda>i j. find_root s1 i = find_root s1 j) ids1"
    by blast
  from assign_clusters_numbers [OF assms(2)] obtain ids2 where
    b: "assign_clusters n s2 = Some (Inr ids2)"
    "well_numbered n (\<lambda>i j. find_root s2 i = find_root s2 j) ids2"
    by blast
  have "well_numbered n (\<lambda>i j. find_root s2 i = find_root s2 j) ids1"
    by (rule well_numbered_cong [OF _ a(2)]) (use assms(3) in simp)
  then have "ids1 = ids2"
    using b(2) by (rule well_numbered_unique)
  with a b show ?thesis by simp
qed

lemma forest_example_1: "forest_over 3 \<lparr>parent = [0, 0, 2], size_d = [2, 1, 1]\<rparr>"
proof -
  have "ranked (\<lambda>i. i) [0, 0, 2]"
    by (auto simp: ranked_def less_Suc_eq nth_Cons')
  then show ?thesis
    by (auto simp: forest_over_def forest_def)
qed

lemma forest_example_2: "forest_over 3 \<lparr>parent = [1, 1, 2], size_d = [1, 2, 1]\<rparr>"
proof -
  have "ranked (\<lambda>i. 2 - i) [1, 1, 2]"
    by (auto simp: ranked_def less_Suc_eq nth_Cons')
  then show ?thesis
    by (auto simp: forest_over_def forest_def)
qed

lemma find_root_example_1:
  "find_root \<lparr>parent = [0, 0, 2], size_d = [2, 1, 1]\<rparr> 0 = Some 0"
  "find_root \<lparr>parent = [0, 0, 2], size_d = [2, 1, 1]\<rparr> 1 = Some 0"
  "find_root \<lparr>parent = [0, 0, 2], size_d = [2, 1, 1]\<rparr> 2 = Some 2"
  by code_simp+

lemma find_root_example_2:
  "find_root \<lparr>parent = [1, 1, 2], size_d = [1, 2, 1]\<rparr> 0 = Some 1"
  "find_root \<lparr>parent = [1, 1, 2], size_d = [1, 2, 1]\<rparr> 1 = Some 1"
  "find_root \<lparr>parent = [1, 1, 2], size_d = [1, 2, 1]\<rparr> 2 = Some 2"
  by code_simp+

theorem cluster_ids_depend_on_partition_witness:
  "forest_over 3 \<lparr>parent = [0, 0, 2], size_d = [2, 1, 1]\<rparr> \<and>
   forest_over 3 \<lparr>parent = [1, 1, 2], size_d = [1, 2, 1]\<rparr> \<and>
   (\<exists>ids. assign_clusters 3 \<lparr>parent = [0, 0, 2], size_d = [2, 1, 1]\<rparr> = Some (Inr ids) \<and>
      assign_clusters 3 \<lparr>parent = [1, 1, 2], size_d = [1, 2, 1]\<rparr> = Some (Inr ids))"
proof -
  have "\<forall>i < 3. \<forall>j < 3.
      find_root \<lparr>parent = [0, 0, 2], size_d = [2, 1, 1]\<rparr> i =
      find_root \<lparr>parent = [0, 0, 2], size_d = [2, 1, 1]\<rparr> j \<longleftrightarrow>
      find_root \<lparr>parent = [1, 1, 2], size_d = [1, 2, 1]\<rparr> i =
      find_root \<lparr>parent = [1, 1, 2], size_d = [1, 2, 1]\<rparr> j"
  proof (intro allI impI)
    fix i j :: nat
    assume "i < 3" "j < 3"
    then have "i = 0 \<or> i = 1 \<or> i = 2" "j = 0 \<or> j = 1 \<or> j = 2" by auto
    then show "find_root \<lparr>parent = [0, 0, 2], size_d = [2, 1, 1]\<rparr> i =
      find_root \<lparr>parent = [0, 0, 2], size_d = [2, 1, 1]\<rparr> j \<longleftrightarrow>
      find_root \<lparr>parent = [1, 1, 2], size_d = [1, 2, 1]\<rparr> i =
      find_root \<lparr>parent = [1, 1, 2], size_d = [1, 2, 1]\<rparr> j"
      using find_root_example_1 find_root_example_2 by auto
  qed
  from cluster_ids_depend_on_partition [OF forest_example_1 forest_example_2 this]
    forest_example_1 forest_example_2
  show ?thesis by (intro conjI)
qed

section \<open>Properties of process\_file\<close>

lemma process_file_returns:
  assumes "sheets \<noteq> []"
  shows "\<exists>ids. length ids = length (concat_sheets sheets) \<and>
      detect_duplicates score (map (\<lambda>(p, _, _). normalize_row p) (concat_sheets sheets)) =
        Some (Inr (map Some ids)) \<and>
      process_file score sheets =
        Some (Inr (annotate (concat_sheets sheets) (map Some ids),
                   summarize (annotate (concat_sheets sheets) (map Some ids)),
                   filter Is_Duplicate (annotate (concat_sheets sheets) (map Some ids))))"
proof -
  define df where "df = map (\<lambda>(p, _, _). normalize_row p) (concat_sheets sheets)"
  from detect_duplicates_numbers [of score df] obtain ids where
    d: "detect_duplicates score df = Some (Inr (map Some ids))" "length ids = length df"
    by (auto simp: well_numbered_def)
  have len: "length df = length (concat_sheets sheets)"
    by (simp add: df_def)
  from d assms have "process_file score sheets =
        Some (Inr (annotate (concat_sheets sheets) (map Some ids),
                   summarize (annotate (concat_sheets sheets) (map Some ids)),
                   filter Is_Duplicate (annotate (concat_sheets sheets) (map Some ids))))"
    unfolding process_file_def Let_def df_def [symmetric]
    by (simp add: len)
  with d len show ?thesis
    unfolding df_def by auto
qed

lemma length_annotate: "length (annotate frames cid) = length frames"
  by (simp add: annotate_def)

lemma annotate_nth:
  assumes "i < length frames"
  shows "Cluster_ID (annotate frames cid ! i) = cid ! i"
    and "Is_Duplicate (annotate frames cid ! i) = is_duplicate (cid ! i)"
proof -
  obtain p sheet r where f: "frames ! i = (p, sheet, r)"
    by (cases "frames ! i") auto
  from assms have "enumerate 0 frames ! i = (i, frames ! i)"
    by (simp add: nth_enumerate_eq)
  with assms f have "annotate frames cid ! i =
      \<lparr>Unique_ID = int i + 1, Cluster_ID = cid ! i, Is_Duplicate = is_duplicate (cid ! i),
       Patient = p, source_sheet = sheet, source_row = r\<rparr>"
    by (simp add: annotate_def)
  then show "Cluster_ID (annotate frames cid ! i) = cid ! i"
    and "Is_Duplicate (annotate frames cid ! i) = is_duplicate (cid ! i)"
    by simp_all
qed

lemma process_file_numbers:
  assumes "sheets \<noteq> []"
  shows "\<exists>dsu ids.
      cluster_records score (map (\<lambda>(p, _, _). normalize_row p) (concat_sheets sheets)) =
        Some (Inr dsu) \<and>
      well_numbered (length (concat_sheets sheets))
        (\<lambda>i j. find_root dsu i = find_root dsu j) ids \<and>
      process_file score sheets =
        Some (Inr (annotate (concat_sheets sheets) (map Some ids),
                   summarize (annotate (concat_sheets sheets) (map Some ids)),
                   filter Is_Duplicate (annotate (concat_sheets sheets) (map Some ids))))"
proof -
  define df where "df = map (\<lambda>(p, _, _). normalize_row p) (concat_sheets sheets)"
  have len: "length df = length (concat_sheets sheets)"
    by (simp add: df_def)
  from detect_duplicates_numbers [of score df] obtain dsu ids where
    c: "cluster_records score df = Some (Inr dsu)"
    and d: "detect_duplicates score df = Some (Inr (map Some ids))"
    and w: "well_numbered (length df) (\<lambda>i j. find_root dsu i = find_root dsu j) ids"
    by blast
  from d assms have p: "process_file score sheets =
        Some (Inr (annotate (concat_sheets sheets) (map Some ids),
                   summarize (annotate (concat_sheets sheets) (map Some ids)),
                   filter Is_Duplicate (annotate (concat_sheets sheets) (map Some ids))))"
    unfolding process_file_def Let_def df_def [symmetric]
    by simp
  from w have w': "well_numbered (length (concat_sheets sheets))
        (\<lambda>i j. find_root dsu i = find_root dsu j) ids"
    unfolding len .
  show ?thesis
    apply (rule exI [of _ dsu])
    apply (rule exI [of _ ids])
    apply (intro conjI)
      apply (rule c [unfolded df_def])
     apply (rule w')
    apply (rule p)
    done
qed

text \<open>
  C3. \<^verbatim>\<open>process_file\<close> returns on every workbook with a sheet. A cluster identifier is
  a number from \<open>0\<close>, as the specification defines it; \<open>- 1\<close> is the mark of a record
  without one. The flag \<^verbatim>\<open>Is_Duplicate\<close> of every record of the result is true if and
  only if its \<^verbatim>\<open>Cluster_ID\<close> holds a cluster identifier, which is the case if and only
  if the set of the record in the forest after the unions has more than one member; a
  record whose flag is false holds \<open>- 1\<close>.
\<close>

theorem duplicate_flag_consistency:
  assumes "sheets \<noteq> []"
  shows "\<exists>df_out summ dupes dsu.
      process_file score sheets = Some (Inr (df_out, summ, dupes)) \<and>
      cluster_records score (map (\<lambda>(p, _, _). normalize_row p) (concat_sheets sheets)) =
        Some (Inr dsu) \<and>
      length df_out = length (concat_sheets sheets) \<and>
      (\<forall>i < length df_out.
         (Is_Duplicate (df_out ! i) \<longleftrightarrow> (\<exists>c. Cluster_ID (df_out ! i) = Some c \<and> 0 \<le> c)) \<and>
         (Is_Duplicate (df_out ! i) \<longleftrightarrow> 1 < set_size dsu (length df_out) i) \<and>
         (\<not> Is_Duplicate (df_out ! i) \<longrightarrow> Cluster_ID (df_out ! i) = Some (- 1)))"
proof -
  define n where "n = length (concat_sheets sheets)"
  from process_file_numbers [OF assms, of score] obtain dsu ids where
    c: "cluster_records score (map (\<lambda>(p, _, _). normalize_row p) (concat_sheets sheets)) =
        Some (Inr dsu)"
    and w: "well_numbered n (\<lambda>i j. find_root dsu i = find_root dsu j) ids"
    and p: "process_file score sheets =
        Some (Inr (annotate (concat_sheets sheets) (map Some ids),
                   summarize (annotate (concat_sheets sheets) (map Some ids)),
                   filter Is_Duplicate (annotate (concat_sheets sheets) (map Some ids))))"
    unfolding n_def by (elim exE conjE)
  define df_out where "df_out = annotate (concat_sheets sheets) (map Some ids)"
  have len: "length df_out = n"
    by (simp add: df_out_def length_annotate n_def)
  from w have lids: "length ids = n"
    by (simp add: well_numbered_def)
  have each: "(Is_Duplicate (df_out ! i) \<longleftrightarrow> (\<exists>c. Cluster_ID (df_out ! i) = Some c \<and> 0 \<le> c)) \<and>
         (Is_Duplicate (df_out ! i) \<longleftrightarrow> 1 < set_size dsu (length df_out) i) \<and>
         (\<not> Is_Duplicate (df_out ! i) \<longrightarrow> Cluster_ID (df_out ! i) = Some (- 1))"
    if i: "i < length df_out" for i
  proof -
    from i len have i': "i < n" by simp
    then have "i < length (concat_sheets sheets)" by (simp add: n_def)
    from annotate_nth [OF this, of "map Some ids"] i' lids
    have cid: "Cluster_ID (df_out ! i) = Some (ids ! i)"
      and flag: "Is_Duplicate (df_out ! i) \<longleftrightarrow> 0 \<le> ids ! i"
      by (simp_all add: df_out_def is_duplicate_def)
    from w i' have "if 1 < set_size dsu n i then 0 \<le> ids ! i else ids ! i = - 1"
      unfolding well_numbered_def set_size_def by blast
    then have "(0 \<le> ids ! i \<longleftrightarrow> 1 < set_size dsu n i) \<and> (\<not> 0 \<le> ids ! i \<longrightarrow> ids ! i = - 1)"
      by (cases "1 < set_size dsu n i") simp_all
    with cid flag show ?thesis by (simp add: len)
  qed
  show ?thesis
    apply (rule exI [of _ df_out])
    apply (rule exI [of _ "summarize df_out"])
    apply (rule exI [of _ "filter Is_Duplicate df_out"])
    apply (rule exI [of _ dsu])
    apply (intro conjI)
       apply (rule p [folded df_out_def])
      apply (rule c)
     apply (rule len [unfolded n_def])
    apply (rule allI, rule impI, erule each)
    done
qed

lemma three_records_flags:
  "map_option (map_sum id (\<lambda>(out, _, _). map (\<lambda>a. (Cluster_ID a, Is_Duplicate a)) out))
     (process_file exact_match three_records) =
   Some (Inr [(Some 0, True), (Some 0, True), (Some (- 1), False)])"
  by code_simp

theorem duplicate_flag_consistency_witness:
  "three_records \<noteq> [] \<and>
   (\<exists>df_out summ dupes dsu.
      process_file exact_match three_records = Some (Inr (df_out, summ, dupes)) \<and>
      cluster_records exact_match
        (map (\<lambda>(p, _, _). normalize_row p) (concat_sheets three_records)) = Some (Inr dsu) \<and>
      length df_out = 3 \<and>
      Is_Duplicate (df_out ! 0) \<and> Cluster_ID (df_out ! 0) = Some 0 \<and> 1 < set_size dsu 3 0 \<and>
      \<not> Is_Duplicate (df_out ! 2) \<and> Cluster_ID (df_out ! 2) = Some (- 1) \<and>
      \<not> 1 < set_size dsu 3 2)"
proof -
  have ne: "three_records \<noteq> []"
    by (simp add: three_records_def)
  from duplicate_flag_consistency [OF ne, of exact_match] obtain df_out summ dupes dsu where
    p: "process_file exact_match three_records = Some (Inr (df_out, summ, dupes))"
    and c: "cluster_records exact_match
        (map (\<lambda>(p, _, _). normalize_row p) (concat_sheets three_records)) = Some (Inr dsu)"
    and each: "\<forall>i < length df_out.
         (Is_Duplicate (df_out ! i) \<longleftrightarrow> (\<exists>c. Cluster_ID (df_out ! i) = Some c \<and> 0 \<le> c)) \<and>
         (Is_Duplicate (df_out ! i) \<longleftrightarrow> 1 < set_size dsu (length df_out) i) \<and>
         (\<not> Is_Duplicate (df_out ! i) \<longrightarrow> Cluster_ID (df_out ! i) = Some (- 1))"
    by (elim exE conjE)
  have m: "map (\<lambda>a. (Cluster_ID a, Is_Duplicate a)) df_out =
      [(Some 0, True), (Some 0, True), (Some (- 1), False)]"
    using three_records_flags [unfolded p] by simp
  from arg_cong [OF m, of length] have len: "length df_out = 3"
    by simp
  then have l0: "0 < length df_out" and l2: "2 < length df_out"
    by simp_all
  from arg_cong [OF m, of "\<lambda>xs. xs ! 0"] l0
  have v0: "Cluster_ID (df_out ! 0) = Some 0 \<and> Is_Duplicate (df_out ! 0)"
    by simp
  from arg_cong [OF m, of "\<lambda>xs. xs ! 2"] l2
  have v2: "Cluster_ID (df_out ! 2) = Some (- 1) \<and> \<not> Is_Duplicate (df_out ! 2)"
    by simp
  from each [THEN spec, THEN mp, OF l0] v0 have s0: "1 < set_size dsu 3 0"
    unfolding len by (elim conjE) (erule iffD1)
  from each [THEN spec, THEN mp, OF l2]
  have e2: "Is_Duplicate (df_out ! 2) \<longleftrightarrow> 1 < set_size dsu 3 2"
    unfolding len by (elim conjE)
  from v2 [THEN conjunct2] have s2: "\<not> 1 < set_size dsu 3 2"
    unfolding e2 .
  show ?thesis
    apply (rule conjI)
     apply (rule ne)
    apply (rule exI [of _ df_out])
    apply (rule exI [of _ summ])
    apply (rule exI [of _ dupes])
    apply (rule exI [of _ dsu])
    apply (intro conjI)
            apply (rule p)
           apply (rule c)
          apply (rule len)
         apply (rule v0 [THEN conjunct2])
        apply (rule v0 [THEN conjunct1])
       apply (rule s0)
      apply (rule v2 [THEN conjunct2])
     apply (rule v2 [THEN conjunct1])
    apply (rule s2)
    done
qed

text \<open>
  C2 fails on the code. In this workbook the first two records are one cluster, with
  identifier \<open>0\<close>, and the third is alone, with \<open>- 1\<close>. The summary counts the three
  records and the two duplicates, and reports two clusters: \<^verbatim>\<open>dropna()\<close> removes
  nothing, and \<^verbatim>\<open>nunique()\<close> counts \<open>- 1\<close> as an identifier.
\<close>

theorem summary_cluster_count_example:
  "process_file exact_match
     [(''Sheet1'',
       [\<lparr>Name = Some ''Ann Lee'', DOB = None, Gender = Some ''F'',
          Nationality = None, Disease = None, Symptoms = None\<rparr>,
        \<lparr>Name = Some ''ann  lee'', DOB = None, Gender = Some ''female'',
          Nationality = None, Disease = None, Symptoms = None\<rparr>,
        \<lparr>Name = Some ''Bob Ray'', DOB = None, Gender = Some ''M'',
          Nationality = None, Disease = None, Symptoms = None\<rparr>])] =
   Some (Inr ([\<lparr>Unique_ID = 1, Cluster_ID = Some 0, Is_Duplicate = True,
                Patient = \<lparr>Name = Some ''Ann Lee'', DOB = None, Gender = Some ''F'',
                            Nationality = None, Disease = None, Symptoms = None\<rparr>,
                source_sheet = ''Sheet1'', source_row = 1\<rparr>,
               \<lparr>Unique_ID = 2, Cluster_ID = Some 0, Is_Duplicate = True,
                Patient = \<lparr>Name = Some ''ann  lee'', DOB = None, Gender = Some ''female'',
                            Nationality = None, Disease = None, Symptoms = None\<rparr>,
                source_sheet = ''Sheet1'', source_row = 2\<rparr>,
               \<lparr>Unique_ID = 3, Cluster_ID = Some (- 1), Is_Duplicate = False,
                Patient = \<lparr>Name = Some ''Bob Ray'', DOB = None, Gender = Some ''M'',
                            Nationality = None, Disease = None, Symptoms = None\<rparr>,
                source_sheet = ''Sheet1'', source_row = 3\<rparr>],
              \<lparr>Total_Records = 3, Duplicate_Records = 2, Duplicate_Clusters = 2\<rparr>,
              [\<lparr>Unique_ID = 1, Cluster_ID = Some 0, Is_Duplicate = True,
                Patient = \<lparr>Name = Some ''Ann Lee'', DOB = None, Gender = Some ''F'',
                            Nationality = None, Disease = None, Symptoms = None\<rparr>,
                source_sheet = ''Sheet1'', source_row = 1\<rparr>,
               \<lparr>Unique_ID = 2, Cluster_ID = Some 0, Is_Duplicate = True,
                Patient = \<lparr>Name = Some ''ann  lee'', DOB = None, Gender = Some ''female'',
                            Nationality = None, Disease = None, Symptoms = None\<rparr>,
                source_sheet = ''Sheet1'', source_row = 2\<rparr>]))"
  by code_simp

section \<open>Similar records of one block are clustered\<close>

lemma same_set_link:
  assumes "ranked h p" "pa < length p" "pb < length p" "p ! pa = pa" "p ! pb = pb" "pa \<noteq> pb"
  shows "root_of p i r \<Longrightarrow> root_of p j r \<Longrightarrow>
           \<exists>r'. root_of (p[pb := pa]) i r' \<and> root_of (p[pb := pa]) j r'"
    and "root_of p a pa \<Longrightarrow> root_of (p[pb := pa]) a pa"
    and "root_of p b pb \<Longrightarrow> root_of (p[pb := pa]) b pa"
proof -
  note link = root_of_link [OF assms]
  show "\<exists>r'. root_of (p[pb := pa]) i r' \<and> root_of (p[pb := pa]) j r'"
    if "root_of p i r" "root_of p j r"
  proof (cases "r = pb")
    case True
    with that have "root_of (p[pb := pa]) i pa" "root_of (p[pb := pa]) j pa"
      by (simp_all add: link)
    then show ?thesis by blast
  next
    case False
    with that have "\<not> root_of p i pb" "\<not> root_of p j pb"
      using root_of_fun by blast+
    with that have "root_of (p[pb := pa]) i r" "root_of (p[pb := pa]) j r"
      by (simp_all add: link)
    then show ?thesis by blast
  qed
  show "root_of (p[pb := pa]) a pa" if "root_of p a pa"
  proof -
    from that assms(6) have "\<not> root_of p a pb"
      using root_of_fun by blast
    with that show ?thesis by (simp add: link)
  qed
  show "root_of (p[pb := pa]) b pa" if "root_of p b pb"
    using that by (simp add: link)
qed

lemma grows_refl: "dsu_inv n s \<Longrightarrow> grows n s s"
  by (simp add: grows_def)

lemma grows_trans: "grows n s s' \<Longrightarrow> grows n s' s'' \<Longrightarrow> grows n s s''"
  by (simp add: grows_def)

lemma grows_same_roots:
  assumes "dsu_inv n s'" "root_of (parent s') = root_of (parent s)"
  shows "grows n s s'"
  using assms by (simp add: grows_def same_set_def)

lemma DSU_union_grows:
  assumes "dsu_inv n s" "a < n" "b < n"
  shows "\<exists>s'. DSU_union s a b = Some (Inr s') \<and> grows n s s' \<and> same_set s' a b"
proof -
  from DSU_find_inv [OF assms(1,2)] obtain s1 pa where
    f1: "DSU_find s a = Some (Inr (s1, pa))" and i1: "dsu_inv n s1"
    and ra: "root_of (parent s) a pa" and e1: "root_of (parent s1) = root_of (parent s)"
    by blast
  from DSU_find_inv [OF i1 assms(3)] obtain s2 pb where
    f2: "DSU_find s1 b = Some (Inr (s2, pb))" and i2: "dsu_inv n s2"
    and rb: "root_of (parent s1) b pb" and e2: "root_of (parent s2) = root_of (parent s1)"
    by blast
  from i2 obtain h where h: "ranked h (parent s2)"
    and len: "length (parent s2) = n" "length (size_d s2) = n"
    by (auto simp: dsu_inv_def forest_def)
  have e: "root_of (parent s2) = root_of (parent s)"
    by (simp add: e1 e2)
  from ra have ra2: "root_of (parent s2) a pa" by (simp add: e)
  then have pa: "pa < n" "parent s2 ! pa = pa"
    using root_of_bounds len by auto
  from rb have rb2: "root_of (parent s2) b pb" by (simp add: e2)
  then have pb: "pb < n" "parent s2 ! pb = pb"
    using root_of_bounds len by auto
  have g2: "grows n s s2"
    by (rule grows_same_roots [OF i2 e])
  show ?thesis
  proof (cases "pa = pb")
    case True
    with f1 f2 have "DSU_union s a b = Some (Inr s2)"
      by (simp add: DSU_union_def)
    moreover from True ra2 rb2 have "same_set s2 a b"
      by (auto simp: same_set_def)
    ultimately show ?thesis using g2 by blast
  next
    case False
    show ?thesis
    proof (cases "size_d s2 ! pa < size_d s2 ! pb")
      case True
      define s3 where "s3 = s2\<lparr>parent := (parent s2)[pa := pb],
                     size_d := (size_d s2)[pb := size_d s2 ! pb + size_d s2 ! pa]\<rparr>"
      have u: "DSU_union s a b = Some (Inr s3)"
        using f1 f2 False True pa pb len by (simp add: DSU_union_def s3_def)
      have inv: "dsu_inv n s3"
        unfolding s3_def using dsu_inv_link [OF i2 pb pa] False by auto
      note L = same_set_link [OF h pb(1) [folded len(1)] pa(1) [folded len(1)] pb(2) pa(2)]
      have "same_set s2 i j \<longrightarrow> same_set s3 i j" for i j
        unfolding same_set_def s3_def using L(1) False by auto
      with inv have "grows n s2 s3" by (simp add: grows_def)
      moreover have "same_set s3 a b"
        unfolding same_set_def s3_def using L(2) [of b] L(3) [of a] False ra2 rb2 by auto
      ultimately show ?thesis
        using u g2 grows_trans by blast
    next
      case lt: False
      define s3 where "s3 = s2\<lparr>parent := (parent s2)[pb := pa],
                     size_d := (size_d s2)[pa := size_d s2 ! pa + size_d s2 ! pb]\<rparr>"
      have u: "DSU_union s a b = Some (Inr s3)"
        using f1 f2 False lt pa pb len by (simp add: DSU_union_def s3_def)
      have inv: "dsu_inv n s3"
        unfolding s3_def using dsu_inv_link [OF i2 pa pb] False by auto
      note L = same_set_link [OF h pa(1) [folded len(1)] pb(1) [folded len(1)] pa(2) pb(2)]
      have "same_set s2 i j \<longrightarrow> same_set s3 i j" for i j
        unfolding same_set_def s3_def using L(1) False by auto
      with inv have "grows n s2 s3" by (simp add: grows_def)
      moreover have "same_set s3 a b"
        unfolding same_set_def s3_def using L(2) [of a] L(3) [of b] False ra2 rb2 by auto
      ultimately show ?thesis
        using u g2 grows_trans by blast
    qed
  qed
qed

lemma for_each_append:
  "for_each (xs @ ys) body s = and_then (for_each xs body s) (for_each ys body)"
proof (induction xs arbitrary: s)
  case Nil
  show ?case by simp
next
  case (Cons x xs)
  show ?case
  proof (cases "body x s")
    case None
    then show ?thesis by simp
  next
    case (Some res)
    then show ?thesis
      by (cases res) (simp_all add: Cons.IH)
  qed
qed

lemma for_each_grows:
  assumes "dsu_inv n s0"
    and "\<And>x s. x \<in> set xs \<Longrightarrow> dsu_inv n s \<Longrightarrow> \<exists>s'. body x s = Some (Inr s') \<and> grows n s s'"
  shows "\<exists>s'. for_each xs body s0 = Some (Inr s') \<and> grows n s0 s'"
proof (rule for_each_inv [where P = "grows n s0"])
  show "grows n s0 s0" by (rule grows_refl [OF assms(1)])
next
  fix x s
  assume x: "x \<in> set xs" and g: "grows n s0 s"
  then have "dsu_inv n s" by (simp add: grows_def)
  from assms(2) [OF x this] obtain s' where "body x s = Some (Inr s')" "grows n s s'"
    by blast
  with g show "\<exists>s'. body x s = Some (Inr s') \<and> grows n s0 s'"
    using grows_trans by blast
qed

lemma for_each_hits:
  assumes inv: "dsu_inv n s0"
    and step: "\<And>x s. x \<in> set xs \<Longrightarrow> dsu_inv n s \<Longrightarrow> \<exists>s'. body x s = Some (Inr s') \<and> grows n s s'"
    and x0: "x0 \<in> set xs"
    and hit: "\<And>s s'. dsu_inv n s \<Longrightarrow> body x0 s = Some (Inr s') \<Longrightarrow> same_set s' a b"
  shows "\<exists>s'. for_each xs body s0 = Some (Inr s') \<and> grows n s0 s' \<and> same_set s' a b"
proof -
  from x0 obtain ys zs where xs: "xs = ys @ x0 # zs"
    by (meson split_list)
  have "\<exists>s1. for_each ys body s0 = Some (Inr s1) \<and> grows n s0 s1"
    by (rule for_each_grows [OF inv]) (rule step, simp_all add: xs)
  then obtain s1 where s1: "for_each ys body s0 = Some (Inr s1)" "grows n s0 s1"
    by blast
  then have i1: "dsu_inv n s1" by (simp add: grows_def)
  from step [OF x0 i1] obtain s2 where s2: "body x0 s1 = Some (Inr s2)" "grows n s1 s2"
    by blast
  then have i2: "dsu_inv n s2" by (simp add: grows_def)
  from hit [OF i1 s2(1)] have j2: "same_set s2 a b" .
  have "\<exists>s3. for_each zs body s2 = Some (Inr s3) \<and> grows n s2 s3"
    by (rule for_each_grows [OF i2]) (rule step, simp_all add: xs)
  then obtain s3 where s3: "for_each zs body s2 = Some (Inr s3)" "grows n s2 s3"
    by blast
  have "for_each xs body s0 = Some (Inr s3)"
    by (simp add: xs for_each_append s1(1) s2(1) s3(1))
  moreover have "grows n s0 s3"
    using s1(2) s2(2) s3(2) grows_trans by blast
  moreover have "same_set s3 a b"
    using j2 s3(2) by (simp add: grows_def)
  ultimately show ?thesis by blast
qed

lemma union_pair_grows:
  assumes "dsu_inv n s" "a < n" "b < n"
  shows "\<exists>s'. (if c then DSU_union s a b else Some (Inr s)) = Some (Inr s') \<and> grows n s s'"
  using DSU_union_grows [OF assms] grows_refl [OF assms(1)] by auto

lemma union_block_grows:
  assumes inv: "dsu_inv (length df) dsu" and idx: "\<forall>i \<in> set indices. i < length df"
  shows "\<exists>dsu'. union_block score df indices dsu = Some (Inr dsu') \<and> grows (length df) dsu dsu'"
    and "x < y \<Longrightarrow> y < length indices \<Longrightarrow>
      NAME_SIMILARITY_THRESHOLD \<le> score (Name_norm (df ! (indices ! x))) (Name_norm (df ! (indices ! y))) \<Longrightarrow>
      \<exists>dsu'. union_block score df indices dsu = Some (Inr dsu') \<and> grows (length df) dsu dsu' \<and>
        same_set dsu' (indices ! x) (indices ! y)"
proof -
  define k where "k = length indices"
  define names where "names = map (\<lambda>i. Name_norm (df ! i)) indices"
  define inner where "inner = (\<lambda>i j dsu.
      if NAME_SIMILARITY_THRESHOLD \<le> score (names ! i) (names ! j)
      then DSU_union dsu (indices ! i) (indices ! j) else Some (Inr dsu))"
  have in_range: "indices ! i < length df" if "i < k" for i
    using idx that by (simp add: k_def)
  have pair: "\<exists>s'. inner i j s = Some (Inr s') \<and> grows (length df) s s'"
    if "i < k" "j < k" "dsu_inv (length df) s" for i j s
    unfolding inner_def using union_pair_grows [OF that(3) in_range [OF that(1)] in_range [OF that(2)]]
    by blast
  have row: "\<exists>s'. for_each [i + 1..<k] (inner i) s = Some (Inr s') \<and> grows (length df) s s'"
    if "i < k" "dsu_inv (length df) s" for i s
    by (rule for_each_grows [OF that(2)]) (rule pair, use that in simp_all)
  have all: "\<exists>s'. for_each [0..<k] (\<lambda>i. for_each [i + 1..<k] (inner i)) s = Some (Inr s') \<and>
      grows (length df) s s'" if "dsu_inv (length df) s" for s
    by (rule for_each_grows [OF that]) (rule row, simp_all)
  have unfold: "union_block score df indices dsu =
      (if k < 2 then Some (Inr dsu)
       else for_each [0..<k] (\<lambda>i. for_each [i + 1..<k] (inner i)) dsu)"
    using idx by (auto simp: union_block_def Let_def k_def inner_def names_def)
  show "\<exists>dsu'. union_block score df indices dsu = Some (Inr dsu') \<and> grows (length df) dsu dsu'"
    unfolding unfold using all [OF inv] grows_refl [OF inv] by auto
  show "\<exists>dsu'. union_block score df indices dsu = Some (Inr dsu') \<and> grows (length df) dsu dsu' \<and>
        same_set dsu' (indices ! x) (indices ! y)"
    if xy: "x < y" "y < length indices"
      and sim: "NAME_SIMILARITY_THRESHOLD \<le> score (Name_norm (df ! (indices ! x))) (Name_norm (df ! (indices ! y)))"
  proof -
    from xy have k: "x < k" "y < k" "\<not> k < 2" by (simp_all add: k_def)
    have sim': "NAME_SIMILARITY_THRESHOLD \<le> score (names ! x) (names ! y)"
      using sim k by (simp add: names_def k_def)
    have hit_pair: "same_set s' (indices ! x) (indices ! y)"
      if "dsu_inv (length df) s" "inner x y s = Some (Inr s')" for s s'
      using DSU_union_grows [OF that(1) in_range [OF k(1)] in_range [OF k(2)]] that(2) sim'
      by (auto simp: inner_def)
    have hit_row: "same_set s' (indices ! x) (indices ! y)"
      if s: "dsu_inv (length df) s" and r: "for_each [x + 1..<k] (inner x) s = Some (Inr s')" for s s'
    proof -
      have "\<exists>s'. for_each [x + 1..<k] (inner x) s = Some (Inr s') \<and> grows (length df) s s' \<and>
          same_set s' (indices ! x) (indices ! y)"
      proof (rule for_each_hits [OF s])
        show "y \<in> set [x + 1..<k]" using xy k by simp
        show "\<exists>s'. inner x j s = Some (Inr s') \<and> grows (length df) s s'"
          if "j \<in> set [x + 1..<k]" "dsu_inv (length df) s" for j s
          using that k by (intro pair) simp_all
        show "same_set s' (indices ! x) (indices ! y)"
          if "dsu_inv (length df) s" "inner x y s = Some (Inr s')" for s s'
          using that by (rule hit_pair)
      qed
      with r show ?thesis by simp
    qed
    have "\<exists>s'. for_each [0..<k] (\<lambda>i. for_each [i + 1..<k] (inner i)) dsu = Some (Inr s') \<and>
        grows (length df) dsu s' \<and> same_set s' (indices ! x) (indices ! y)"
    proof (rule for_each_hits [OF inv])
      show "x \<in> set [0..<k]" using k by simp
      show "\<exists>s'. for_each [i + 1..<k] (inner i) s = Some (Inr s') \<and> grows (length df) s s'"
        if "i \<in> set [0..<k]" "dsu_inv (length df) s" for i s
        using that by (intro row) simp_all
      show "same_set s' (indices ! x) (indices ! y)"
        if "dsu_inv (length df) s" "for_each [x + 1..<k] (inner x) s = Some (Inr s')" for s s'
        using that by (rule hit_row)
    qed
    then show ?thesis
      unfolding unfold using k by simp
  qed
qed

lemma blocks_append_sorted:
  assumes "\<forall>(k', idxs) \<in> set bs. sorted_wrt (<) idxs \<and> (\<forall>j \<in> set idxs. j < i)"
  shows "\<forall>(k', idxs) \<in> set (blocks_append k i bs). sorted_wrt (<) idxs \<and> (\<forall>j \<in> set idxs. j < Suc i)"
  using assms
proof (induction k i bs rule: blocks_append.induct)
  case (1 k idx)
  show ?case by simp
next
  case (2 k idx k' idxs bs)
  then show ?case
    by (auto simp: sorted_wrt_append less_Suc_eq)
qed

lemma build_blocks_sorted:
  "\<forall>(k, idxs) \<in> set (build_blocks df). sorted_wrt (<) idxs \<and> (\<forall>j \<in> set idxs. j < length df)"
proof (induction df rule: rev_induct)
  case Nil
  show ?case by (simp add: build_blocks_def)
next
  case (snoc r df)
  then show ?case
    unfolding build_blocks_snoc using blocks_append_sorted [of "build_blocks df" "length df" "key_of r"]
    by simp
qed

lemma sorted_positions:
  assumes "sorted_wrt (<) (idxs :: nat list)" "i \<in> set idxs" "j \<in> set idxs" "i < j"
  shows "\<exists>x y. x < y \<and> y < length idxs \<and> idxs ! x = i \<and> idxs ! y = j"
proof -
  from assms(2,3) obtain x y where xy: "x < length idxs" "idxs ! x = i" "y < length idxs" "idxs ! y = j"
    by (auto simp: in_set_conv_nth)
  have "x < y"
  proof (rule ccontr)
    assume "\<not> x < y"
    then consider "x = y" | "y < x" by linarith
    then show False
    proof cases
      case 1
      with xy assms(4) show False by simp
    next
      case 2
      from sorted_wrt_nth_less [OF assms(1) 2 xy(1)] have "idxs ! y < idxs ! x" .
      with xy assms(4) show False by simp
    qed
  qed
  with xy show ?thesis by blast
qed

lemma cluster_records_joins:
  assumes "i < j" "j < length df" "key_of (df ! i) = key_of (df ! j)"
    and "NAME_SIMILARITY_THRESHOLD \<le> score (Name_norm (df ! i)) (Name_norm (df ! j))"
  shows "\<exists>dsu. cluster_records score df = Some (Inr dsu) \<and> dsu_inv (length df) dsu \<and>
      same_set dsu i j"
proof -
  from assms have i: "i < length df" by simp
  from build_blocks_has [OF i] obtain idxs where
    bi: "(key_of (df ! i), idxs) \<in> set (build_blocks df)" "i \<in> set idxs"
    by blast
  from build_blocks_has [OF assms(2)] obtain idxs' where
    bj: "(key_of (df ! j), idxs') \<in> set (build_blocks df)" "j \<in> set idxs'"
    by blast
  have "map_of (build_blocks df) (key_of (df ! i)) = Some idxs"
    using bi(1) distinct_keys_build_blocks [of df] by simp
  moreover have "map_of (build_blocks df) (key_of (df ! i)) = Some idxs'"
    using bj(1) distinct_keys_build_blocks [of df] by (simp add: assms(3))
  ultimately have "idxs = idxs'" by simp
  with bj have j: "j \<in> set idxs" by simp
  from build_blocks_sorted bi(1) have "sorted_wrt (<) idxs" by blast
  from sorted_positions [OF this bi(2) j assms(1)] obtain x y where
    xy: "x < y" "y < length idxs" "idxs ! x = i" "idxs ! y = j"
    by blast
  have step: "\<exists>s'. (case b of (_, indices) \<Rightarrow> union_block score df indices) s = Some (Inr s') \<and>
      grows (length df) s s'"
    if "b \<in> set (build_blocks df)" "dsu_inv (length df) s" for b s
  proof -
    obtain k indices where kb: "b = (k, indices)" by (cases b)
    with that(1) have "\<forall>i \<in> set indices. i < length df"
      using build_blocks_indices by blast
    from union_block_grows(1) [OF that(2) this] show ?thesis
      by (simp add: kb)
  qed
  have "\<exists>s'. for_each (build_blocks df) (\<lambda>(_, indices). union_block score df indices)
        (DSU_init (length df)) = Some (Inr s') \<and>
      grows (length df) (DSU_init (length df)) s' \<and> same_set s' i j"
  proof (rule for_each_hits [OF dsu_inv_init step])
    show "(key_of (df ! i), idxs) \<in> set (build_blocks df)" by (rule bi(1))
    show "same_set s' i j"
      if s: "dsu_inv (length df) s"
        and r: "(case (key_of (df ! i), idxs) of (_, indices) \<Rightarrow> union_block score df indices) s =
          Some (Inr s')" for s s'
    proof -
      have "\<forall>i \<in> set idxs. i < length df"
        using build_blocks_indices bi(1) by blast
      from union_block_grows(2) [OF s this xy(1,2), of score] assms(4) r
      show ?thesis by (simp add: xy)
    qed
  qed
  then show ?thesis
    by (auto simp: cluster_records_def grows_def)
qed

section \<open>Records without a date of birth\<close>

text \<open>
  C8. Two rows whose parsed date of birth is \<^verbatim>\<open>NaT\<close>, and whose normalized gender and
  first two characters of the phonetic code agree, lie in one block. So their names are
  compared, and when the score of the two names reaches the threshold the two rows get
  one cluster identifier. Neither \<^verbatim>\<open>detect_duplicates\<close> nor \<^verbatim>\<open>process_file\<close> (on a
  workbook with a sheet) raises an error or fails to return.
\<close>

theorem unknown_dob_same_block:
  assumes "i < j" "j < length df"
    and "DOB_parsed (df ! i) = None" "DOB_parsed (df ! j) = None"
    and "Gender_norm (df ! i) = Gender_norm (df ! j)"
    and "take 2 (Soundex (df ! i)) = take 2 (Soundex (df ! j))"
  shows "(\<exists>b \<in> set (build_blocks df). i \<in> set (snd b) \<and> j \<in> set (snd b)) \<and>
         (\<exists>ids. detect_duplicates score df = Some (Inr (map Some ids)) \<and>
            length ids = length df \<and>
            (NAME_SIMILARITY_THRESHOLD \<le> score (Name_norm (df ! i)) (Name_norm (df ! j)) \<longrightarrow>
               0 \<le> ids ! i \<and> ids ! i = ids ! j)) \<and>
         (sheets \<noteq> [] \<longrightarrow> (\<exists>out. process_file score sheets = Some (Inr out)))"
proof (intro conjI impI)
  from assms have i: "i < length df" by simp
  from assms have k: "key_of (df ! i) = key_of (df ! j)"
    by (simp add: key_of_def)
  from build_blocks_has [OF i] obtain idxs where
    bi: "(key_of (df ! i), idxs) \<in> set (build_blocks df)" "i \<in> set idxs"
    by blast
  from build_blocks_has [OF assms(2)] obtain idxs' where
    bj: "(key_of (df ! j), idxs') \<in> set (build_blocks df)" "j \<in> set idxs'"
    by blast
  have "map_of (build_blocks df) (key_of (df ! i)) = Some idxs"
    using bi(1) distinct_keys_build_blocks [of df] by simp
  moreover have "map_of (build_blocks df) (key_of (df ! i)) = Some idxs'"
    using bj(1) distinct_keys_build_blocks [of df] by (simp add: k)
  ultimately have "idxs = idxs'" by simp
  with bi bj show "\<exists>b \<in> set (build_blocks df). i \<in> set (snd b) \<and> j \<in> set (snd b)"
    by force
  from detect_duplicates_numbers [of score df] obtain dsu ids where
    d: "cluster_records score df = Some (Inr dsu)" "dsu_inv (length df) dsu"
    "detect_duplicates score df = Some (Inr (map Some ids))"
    and w: "well_numbered (length df) (\<lambda>i j. find_root dsu i = find_root dsu j) ids"
    by blast
  have "0 \<le> ids ! i \<and> ids ! i = ids ! j"
    if sim: "NAME_SIMILARITY_THRESHOLD \<le> score (Name_norm (df ! i)) (Name_norm (df ! j))"
  proof -
    from cluster_records_joins [of i j df score, OF assms(1,2) k sim] d(1)
    have "same_set dsu i j"
      by auto
    then obtain r where "root_of (parent dsu) i r" "root_of (parent dsu) j r"
      by (auto simp: same_set_def)
    then have "find_root dsu i = Some r" "find_root dsu j = Some r"
      using find_root_iff [OF d(2) i, of r] find_root_iff [OF d(2) assms(2), of r] by blast+
    then have same: "find_root dsu i = find_root dsu j" by simp
    let ?S = "{k. k < length df \<and> find_root dsu i = find_root dsu k}"
    have "{i, j} \<subseteq> ?S" using i assms(2) same by simp
    moreover have "finite ?S" by simp
    ultimately have "card {i, j} \<le> card ?S"
      by (rule card_mono [rotated])
    moreover have "card {i, j} = 2" using assms(1) by simp
    ultimately have "1 < card ?S" by simp
    with w i have "0 \<le> ids ! i"
      unfolding well_numbered_def by (metis (no_types, lifting))
    moreover from w i assms(2) this same have "ids ! i = ids ! j"
      unfolding well_numbered_def by blast
    ultimately show ?thesis by simp
  qed
  moreover from w have "length ids = length df"
    by (simp add: well_numbered_def)
  ultimately show "\<exists>ids. detect_duplicates score df = Some (Inr (map Some ids)) \<and>
            length ids = length df \<and>
            (NAME_SIMILARITY_THRESHOLD \<le> score (Name_norm (df ! i)) (Name_norm (df ! j)) \<longrightarrow>
               0 \<le> ids ! i \<and> ids ! i = ids ! j)"
    using d(3) by blast
next
  assume "sheets \<noteq> []"
  from process_file_returns [OF this, of score]
  show "\<exists>out. process_file score sheets = Some (Inr out)"
    by blast
qed

theorem unknown_dob_same_block_witness:
  "(0 :: nat) < 1 \<and> (1 :: nat) < length two_rows \<and>
   DOB_parsed (two_rows ! 0) = None \<and> DOB_parsed (two_rows ! 1) = None \<and>
   Gender_norm (two_rows ! 0) = Gender_norm (two_rows ! 1) \<and>
   take 2 (Soundex (two_rows ! 0)) = take 2 (Soundex (two_rows ! 1)) \<and>
   NAME_SIMILARITY_THRESHOLD \<le> exact_match (Name_norm (two_rows ! 0)) (Name_norm (two_rows ! 1)) \<and>
   one_sheet \<noteq> [] \<and>
   (\<exists>b \<in> set (build_blocks two_rows). 0 \<in> set (snd b) \<and> 1 \<in> set (snd b)) \<and>
   (\<exists>ids. detect_duplicates exact_match two_rows = Some (Inr (map Some ids)) \<and>
      0 \<le> ids ! 0 \<and> ids ! 0 = ids ! 1) \<and>
   (\<exists>out. process_file exact_match one_sheet = Some (Inr out))"
proof -
  have h: "(0 :: nat) < 1" "(1 :: nat) < length two_rows"
    "DOB_parsed (two_rows ! 0) = None" "DOB_parsed (two_rows ! 1) = None"
    "Gender_norm (two_rows ! 0) = Gender_norm (two_rows ! 1)"
    "take 2 (Soundex (two_rows ! 0)) = take 2 (Soundex (two_rows ! 1))"
    by (simp_all add: two_rows_def)
  have sim: "NAME_SIMILARITY_THRESHOLD \<le> exact_match (Name_norm (two_rows ! 0)) (Name_norm (two_rows ! 1))"
    by (simp add: two_rows_def exact_match_def NAME_SIMILARITY_THRESHOLD_def)
  have s: "one_sheet \<noteq> []"
    by (simp add: one_sheet_def)
  from unknown_dob_same_block [OF h, of exact_match one_sheet] sim s
  have "\<exists>b \<in> set (build_blocks two_rows). 0 \<in> set (snd b) \<and> 1 \<in> set (snd b)"
    and "\<exists>ids. detect_duplicates exact_match two_rows = Some (Inr (map Some ids)) \<and>
      0 \<le> ids ! 0 \<and> ids ! 0 = ids ! 1"
    and "\<exists>out. process_file exact_match one_sheet = Some (Inr out)"
    by blast+
  with h sim s show ?thesis by (intro conjI)
qed

end
